theory Spec2Isabelle
  imports Complex_Main "HOL-Library.Multiset" "HOL-Library.Char_ord" "HOL-Library.List_Lexorder"
    "HOL-Library.Product_Lexorder"
begin

section \<open>Rows, values and errors\<close>

text \<open>
  A row (\<^verbatim>\<open>TRow = dict[str, Any]\<close>) is a finite map from column names to values.
  Of Python's values the model keeps numbers and strings. A number (an \<^verbatim>\<open>int\<close> or a finite
  \<^verbatim>\<open>float\<close>) is kept by its exact value, a rational: Python compares numbers exactly, so
  \<^verbatim>\<open>==\<close> and \<^verbatim>\<open><\<close> on numbers are equality and order on \<open>rat\<close> (\<^verbatim>\<open>1 == 1.0\<close> holds in both).
  A float is a rational of a special form, and an operation that returns a float rounds:
  the division of \<^verbatim>\<open>TermFrequency\<close>, the one float operation of the code modelled here, is
  modelled with its rounding (\<open>int_truediv\<close> below). A string is a list of bytes; Python
  orders strings by code point, which is the lexicographic order of the bytes.
\<close>

datatype val = NumV rat | StrV string

type_synonym row = "string \<rightharpoonup> val"

text \<open>
  The exceptions the modelled code raises. A generator is modelled by what consuming it
  to the end gives: the list of all rows it yields, or the exception that ends it
  (\<open>Inl\<close>); the rows yielded before the exception are not kept.
\<close>

datatype error =
  KeyError string | TypeError | IndexError | AssertionError | ZeroDivisionError | OverflowError
    | AttributeError | OSError

text \<open>Running a list of computations in order: the first exception ends the run.\<close>

fun collect :: "(error + 'a) list \<Rightarrow> error + 'a list" where
  "collect [] = Inr []"
| "collect (Inl e # rs) = Inl e"
| "collect (Inr x # rs) = (case collect rs of Inl e \<Rightarrow> Inl e | Inr xs \<Rightarrow> Inr (x # xs))"

section \<open>Python's operators on values\<close>

text \<open>
  \<^verbatim>\<open>a < b\<close>: numbers compare with numbers and strings with strings; a number and a string
  do not compare (\<^verbatim>\<open>TypeError\<close>). \<^verbatim>\<open>a > b\<close> is the reflected \<^verbatim>\<open>b < a\<close>.
\<close>

fun py_lt :: "val \<Rightarrow> val \<Rightarrow> error + bool" where
  "py_lt (NumV a) (NumV b) = Inr (a < b)"
| "py_lt (StrV s) (StrV t) = Inr (s < t)"
| "py_lt _ _ = Inl TypeError"

definition py_gt :: "val \<Rightarrow> val \<Rightarrow> error + bool" where
  "py_gt a b = py_lt b a"

text \<open>
  \<^verbatim>\<open><\<close> on two lists (or tuples) of values: the first position where the two differ
  (by \<^verbatim>\<open>==\<close>) decides; when there is none, the shorter list is the smaller.
\<close>

fun py_lt_list :: "val list \<Rightarrow> val list \<Rightarrow> error + bool" where
  "py_lt_list [] [] = Inr False"
| "py_lt_list [] (y # ys) = Inr True"
| "py_lt_list (x # xs) [] = Inr False"
| "py_lt_list (x # xs) (y # ys) = (if x = y then py_lt_list xs ys else py_lt x y)"

text \<open>
  \<^verbatim>\<open>a + b\<close>: the sum of two numbers, the concatenation of two strings. The sum of two ints
  is exact; the code modelled here adds ints only (the counter of \<^verbatim>\<open>Count\<close>).
\<close>

fun py_add :: "val \<Rightarrow> val \<Rightarrow> error + val" where
  "py_add (NumV a) (NumV b) = Inr (NumV (a + b))"
| "py_add (StrV s) (StrV t) = Inr (StrV (s @ t))"
| "py_add _ _ = Inl TypeError"

text \<open>
  \<^verbatim>\<open>a / b\<close> on two ints is Python's true division. Its result is a float, an IEEE 754
  double: the double nearest to the exact quotient, the one with the even significand
  when two are equally near. \<^verbatim>\<open>ZeroDivisionError\<close> when \<^verbatim>\<open>b\<close> is 0, \<^verbatim>\<open>OverflowError\<close> when the
  result is beyond the largest double.

  The doubles are 0, the numbers \<open>m * 2 ^ e\<close> with \<open>m < 2 ^ 53\<close> and \<open>- 1074 \<le> e \<le> 971\<close>,
  and their negatives. For a quotient \<open>q\<close> with \<open>2 ^ l \<le> q < 2 ^ (l + 1)\<close> the doubles
  around \<open>q\<close> are the multiples of \<open>2 ^ (l - 52)\<close>, or of \<open>2 ^ - 1074\<close> when \<open>l - 52\<close> is
  below \<open>- 1074\<close> (the subnormal numbers).

  \<^verbatim>\<open>int.bit_length()\<close>, the number of binary digits:
\<close>

fun bit_length :: "nat \<Rightarrow> nat" where
  "bit_length n = (if n = 0 then 0 else Suc (bit_length (n div 2)))"

declare bit_length.simps [simp del]

text \<open>The power \<open>2 ^ e\<close> for an integer \<open>e\<close>.\<close>

definition pow2 :: "int \<Rightarrow> rat" where
  "pow2 e = (if 0 \<le> e then 2 ^ nat e else 1 / 2 ^ nat (- e))"

text \<open>The integer nearest to a rational, the even one of two equally near.\<close>

definition round_half_even :: "rat \<Rightarrow> int" where
  "round_half_even q =
     (let f = \<lfloor>q\<rfloor>; d = q - of_int f in
      if d < 1 / 2 then f else if 1 / 2 < d then f + 1 else if even f then f else f + 1)"

text \<open>The \<open>l\<close> with \<open>2 ^ l \<le> a / b < 2 ^ (l + 1)\<close>, for positive \<open>a\<close> and \<open>b\<close>.\<close>

definition leading_exponent :: "nat \<Rightarrow> nat \<Rightarrow> int" where
  "leading_exponent a b =
     (let d = int (bit_length a) - int (bit_length b) in
      if pow2 d * of_nat b \<le> of_nat a then d else d - 1)"

text \<open>The double nearest to \<open>a / b\<close>, for positive \<open>a\<close> and \<open>b\<close>.\<close>

definition nearest_double :: "nat \<Rightarrow> nat \<Rightarrow> rat" where
  "nearest_double a b =
     (let e = max (leading_exponent a b - 52) (- 1074) in
      of_int (round_half_even (of_nat a / of_nat b / pow2 e)) * pow2 e)"

text \<open>
  \<^verbatim>\<open>a / b\<close> for ints \<^verbatim>\<open>a\<close> and \<^verbatim>\<open>b\<close>. The largest double is \<open>2 ^ 1024 - 2 ^ 971\<close>; a quotient
  rounds beyond it from \<open>2 ^ 1024 - 2 ^ 970\<close> on.
\<close>

definition int_truediv :: "int \<Rightarrow> int \<Rightarrow> error + val" where
  "int_truediv a b =
     (if b = 0 then Inl ZeroDivisionError
      else if a = 0 then Inr (NumV 0)
      else if 2 ^ 1024 - 2 ^ 970 \<le> \<bar>of_int a / of_int b :: rat\<bar> then Inl OverflowError
      else Inr (NumV (of_int (sgn a * sgn b) * nearest_double (nat \<bar>a\<bar>) (nat \<bar>b\<bar>))))"

text \<open>\<^verbatim>\<open>{k: row[k] for k in keys}\<close>: \<^verbatim>\<open>KeyError\<close> at the first key the row lacks.\<close>

definition select_keys :: "string list \<Rightarrow> row \<Rightarrow> error + row" where
  "select_keys keys row =
     (case find (\<lambda>k. row k = None) keys of
        Some k \<Rightarrow> Inl (KeyError k)
      | None \<Rightarrow> Inr (row |` set keys))"

text \<open>\<^verbatim>\<open>[row[key] for key in keys]\<close>: the values of a row at the keys, in their order.\<close>

definition values_at :: "string list \<Rightarrow> row \<Rightarrow> error + val list" where
  "values_at keys row =
     collect (map (\<lambda>k. case row k of None \<Rightarrow> Inl (KeyError k) | Some v \<Rightarrow> Inr v) keys)"

text \<open>
  \<^verbatim>\<open>itertools.groupby\<close> over a stream whose elements come with their keys: a new group
  starts whenever the key differs from the key of the first element of the running
  group. Each group is the key and the list of its elements.
\<close>

function groupby :: "('k \<times> 'a) list \<Rightarrow> ('k \<times> 'a list) list" where
  "groupby [] = []"
| "groupby ((k, x) # rest) =
     (k, x # map snd (takeWhile (\<lambda>p. fst p = k) rest)) # groupby (dropWhile (\<lambda>p. fst p = k) rest)"
  by pat_completeness auto
termination
  by (relation "measure length") (auto simp: length_dropWhile_le less_Suc_eq_le)

text \<open>Every row of a stream has the given columns.\<close>

definition have_columns :: "string list \<Rightarrow> row list \<Rightarrow> bool" where
  "have_columns keys rows \<longleftrightarrow> (\<forall>r \<in> set rows. set keys \<subseteq> dom r)"

section \<open>Joiners (operations/base.py, operations/join.py)\<close>

text \<open>
  \<^verbatim>\<open>prod_tables\<close> iterates over Python sets of column names. The order in which a set is
  iterated is not specified by the language; the model takes it as a parameter \<open>iter\<close>,
  the function that lists the elements of a set in the interpreter's order.
\<close>

type_synonym set_iter = "string set \<Rightarrow> string list"

text \<open>
  The body of the two nested loops of \<^verbatim>\<open>prod_tables\<close>, for one pair \<open>(a, b)\<close>:
  \<^verbatim>\<open>
    row = {k: a[k] for k in keys}
    inter = set(a.keys()) & set(b.keys())
    common = inter - set(keys)
    for k in common:
        row[k + self._a_suffix] = a[k]
        row[k + self._b_suffix] = b[k]
    for k in set(a.keys()) - inter: row[k] = a[k]
    for k in set(b.keys()) - inter: row[k] = b[k]
  \<close>
  The dict comprehension raises \<^verbatim>\<open>KeyError\<close> at the first key that \<open>a\<close> lacks. The last two
  loops assign different columns in each round, so their result does not depend on the
  order and is written with \<open>++\<close>; the first loop follows \<open>iter\<close>.
\<close>

definition prod_row ::
  "set_iter \<Rightarrow> string list \<Rightarrow> string \<Rightarrow> string \<Rightarrow> row \<Rightarrow> row \<Rightarrow> error + row" where
  "prod_row iter keys suffix_a suffix_b a b =
     (case find (\<lambda>k. a k = None) keys of
        Some k \<Rightarrow> Inl (KeyError k)
      | None \<Rightarrow>
          (let row0 = (\<lambda>k. if k \<in> set keys then a k else None);
               inter = dom a \<inter> dom b;
               common = inter - set keys;
               row1 = fold (\<lambda>k r. r(k @ suffix_a := a k, k @ suffix_b := b k)) (iter common) row0;
               row2 = row1 ++ (a |` (dom a - inter));
               row3 = row2 ++ (b |` (dom b - inter))
           in Inr row3))"

definition prod_tables ::
  "set_iter \<Rightarrow> string list \<Rightarrow> string \<Rightarrow> string \<Rightarrow> row list \<Rightarrow> row list \<Rightarrow> error + row list" where
  "prod_tables iter keys suffix_a suffix_b rows_a rows_b =
     (if rows_b = [] then Inr []
      else collect (concat (map (\<lambda>a. map (\<lambda>b. prod_row iter keys suffix_a suffix_b a b) rows_b) rows_a)))"

text \<open>A joiner object: its class and the two suffixes its constructor stores.\<close>

datatype joiner_class = InnerJoiner | OuterJoiner | LeftJoiner | RightJoiner

record joiner =
  strategy :: joiner_class
  a_suffix :: string
  b_suffix :: string

definition InnerJoiner_call ::
  "set_iter \<Rightarrow> joiner \<Rightarrow> string list \<Rightarrow> row list \<Rightarrow> row list \<Rightarrow> error + row list" where
  "InnerJoiner_call iter self keys rows_a rows_b =
     prod_tables iter keys (a_suffix self) (b_suffix self) rows_a rows_b"

definition OuterJoiner_call ::
  "set_iter \<Rightarrow> joiner \<Rightarrow> string list \<Rightarrow> row list \<Rightarrow> row list \<Rightarrow> error + row list" where
  "OuterJoiner_call iter self keys rows_a rows_b =
     (case prod_tables iter keys (a_suffix self) (b_suffix self) rows_a rows_b of
        Inl e \<Rightarrow> Inl e
      | Inr rs \<Rightarrow>
          Inr (rs @ (if rows_a = [] then rows_b else []) @ (if rows_b = [] then rows_a else [])))"

definition LeftJoiner_call ::
  "set_iter \<Rightarrow> joiner \<Rightarrow> string list \<Rightarrow> row list \<Rightarrow> row list \<Rightarrow> error + row list" where
  "LeftJoiner_call iter self keys rows_a rows_b =
     (case prod_tables iter keys (a_suffix self) (b_suffix self) rows_a rows_b of
        Inl e \<Rightarrow> Inl e
      | Inr rs \<Rightarrow> Inr (rs @ (if rows_b = [] then rows_a else [])))"

definition RightJoiner_call ::
  "set_iter \<Rightarrow> joiner \<Rightarrow> string list \<Rightarrow> row list \<Rightarrow> row list \<Rightarrow> error + row list" where
  "RightJoiner_call iter self keys rows_a rows_b =
     (case prod_tables iter keys (a_suffix self) (b_suffix self) rows_a rows_b of
        Inl e \<Rightarrow> Inl e
      | Inr rs \<Rightarrow> Inr (rs @ (if rows_a = [] then rows_b else [])))"

text \<open>Calling a joiner object dispatches on its class.\<close>

definition joiner_call ::
  "set_iter \<Rightarrow> joiner \<Rightarrow> string list \<Rightarrow> row list \<Rightarrow> row list \<Rightarrow> error + row list" where
  "joiner_call iter self keys rows_a rows_b =
     (case strategy self of
        InnerJoiner \<Rightarrow> InnerJoiner_call iter self keys rows_a rows_b
      | OuterJoiner \<Rightarrow> OuterJoiner_call iter self keys rows_a rows_b
      | LeftJoiner \<Rightarrow> LeftJoiner_call iter self keys rows_a rows_b
      | RightJoiner \<Rightarrow> RightJoiner_call iter self keys rows_a rows_b)"

text \<open>
  The product row as the specification words it: the keys come from \<open>a\<close>, a column of both
  rows that is not a key appears twice, under the two suffixed names, a column of one row
  only is copied, and the row has no other field.
\<close>

definition common_cols :: "string list \<Rightarrow> row \<Rightarrow> row \<Rightarrow> string set" where
  "common_cols keys a b = (dom a \<inter> dom b) - set keys"

definition spec_product_row ::
  "string list \<Rightarrow> string \<Rightarrow> string \<Rightarrow> row \<Rightarrow> row \<Rightarrow> row \<Rightarrow> bool" where
  "spec_product_row keys suffix_a suffix_b a b r \<longleftrightarrow>
     (\<forall>k \<in> set keys. r k = a k) \<and>
     (\<forall>k \<in> common_cols keys a b. r (k @ suffix_a) = a k \<and> r (k @ suffix_b) = b k) \<and>
     (\<forall>k \<in> dom a - dom b - set keys. r k = a k) \<and>
     (\<forall>k \<in> dom b - dom a - set keys. r k = b k) \<and>
     dom r = set keys \<union> (\<lambda>k. k @ suffix_a) ` common_cols keys a b
               \<union> (\<lambda>k. k @ suffix_b) ` common_cols keys a b
               \<union> (dom a - dom b - set keys) \<union> (dom b - dom a - set keys)"

text \<open>
  No suffixed name is written twice or is the name of another field of the product row:
  the suffixed names of the left row differ from those of the right row, and none is a key
  or a column of one row only.
\<close>

definition no_suffix_clash :: "string list \<Rightarrow> string \<Rightarrow> string \<Rightarrow> row \<Rightarrow> row \<Rightarrow> bool" where
  "no_suffix_clash keys suffix_a suffix_b a b \<longleftrightarrow>
     (\<forall>k \<in> common_cols keys a b. \<forall>k' \<in> common_cols keys a b. k @ suffix_a \<noteq> k' @ suffix_b) \<and>
     (\<forall>k \<in> common_cols keys a b. \<forall>s \<in> {suffix_a, suffix_b}.
        k @ s \<notin> set keys \<union> (dom a - dom b) \<union> (dom b - dom a))"

subsection \<open>The sort-merge driver\<close>

text \<open>\<^verbatim>\<open>Join._comparator\<close>: \<^verbatim>\<open>[row[key] for key in self.keys]\<close>.\<close>

definition comparator :: "string list \<Rightarrow> row \<Rightarrow> error + val list" where
  "comparator keys row = values_at keys row"

text \<open>One call of the joiner, followed by the rest of the run.\<close>

definition yield_then :: "error + row list \<Rightarrow> error + row list \<Rightarrow> error + row list" where
  "yield_then first rest =
     (case first of
        Inl e \<Rightarrow> Inl e
      | Inr xs \<Rightarrow> (case rest of Inl e \<Rightarrow> Inl e | Inr ys \<Rightarrow> Inr (xs @ ys)))"

text \<open>
  The three loops of \<^verbatim>\<open>Join.__call__\<close> over the two streams of groups
  (\<^verbatim>\<open>rows_a\<close>, \<^verbatim>\<open>rows_b\<close>; the heads are \<^verbatim>\<open>(ak, ag)\<close> and \<^verbatim>\<open>(bk, bg)\<close>):
  \<^verbatim>\<open>
    while ag is not None and bg is not None:
        if ak < bk:
            yield from self.joiner(self.keys, ag, []); ak, ag = next(rows_a); continue
        if bk < ak:
            yield from self.joiner(self.keys, [], bg); bk, bg = next(rows_b); continue
        yield from self.joiner(self.keys, ag, bg)
        ak, ag = next(rows_a); bk, bg = next(rows_b)
    while ag is not None:
        yield from self.joiner(self.keys, ag, []); ak, ag = next(rows_a)
    while bg is not None:
        yield from self.joiner(self.keys, [], bg); bk, bg = next(rows_b)
  \<close>
\<close>

fun join_groups ::
  "set_iter \<Rightarrow> joiner \<Rightarrow> string list \<Rightarrow> (val list \<times> row list) list \<Rightarrow> (val list \<times> row list) list
     \<Rightarrow> error + row list" where
  "join_groups iter j keys [] [] = Inr []"
| "join_groups iter j keys ((ak, ag) # rows_a) [] =
     yield_then (joiner_call iter j keys ag []) (join_groups iter j keys rows_a [])"
| "join_groups iter j keys [] ((bk, bg) # rows_b) =
     yield_then (joiner_call iter j keys [] bg) (join_groups iter j keys [] rows_b)"
| "join_groups iter j keys ((ak, ag) # rows_a) ((bk, bg) # rows_b) =
     (case py_lt_list ak bk of
        Inl e \<Rightarrow> Inl e
      | Inr True \<Rightarrow>
          yield_then (joiner_call iter j keys ag [])
            (join_groups iter j keys rows_a ((bk, bg) # rows_b))
      | Inr False \<Rightarrow>
          (case py_lt_list bk ak of
             Inl e \<Rightarrow> Inl e
           | Inr True \<Rightarrow>
               yield_then (joiner_call iter j keys [] bg)
                 (join_groups iter j keys ((ak, ag) # rows_a) rows_b)
           | Inr False \<Rightarrow>
               yield_then (joiner_call iter j keys ag bg)
                 (join_groups iter j keys rows_a rows_b)))"

text \<open>
  \<^verbatim>\<open>Join.__call__\<close>: both inputs are grouped by the comparator, then merged. The keys of
  all rows are computed first here, so on an input where both a key lookup and a
  comparison fail the model reports the key lookup.
\<close>

definition Join_call ::
  "set_iter \<Rightarrow> joiner \<Rightarrow> string list \<Rightarrow> row list \<Rightarrow> row list \<Rightarrow> error + row list" where
  "Join_call iter j keys rows rows_right =
     (case collect (map (comparator keys) rows) of
        Inl e \<Rightarrow> Inl e
      | Inr ks_a \<Rightarrow>
          (case collect (map (comparator keys) rows_right) of
             Inl e \<Rightarrow> Inl e
           | Inr ks_b \<Rightarrow>
               join_groups iter j keys (groupby (zip ks_a rows)) (groupby (zip ks_b rows_right))))"

text \<open>
  A stream is sorted ascending by the keys when every row has the key columns and no row
  is followed, anywhere later, by a row with a smaller tuple of key values.
\<close>

definition py_le_list :: "val list \<Rightarrow> val list \<Rightarrow> bool" where
  "py_le_list a b \<longleftrightarrow> a = b \<or> py_lt_list a b = Inr True"

definition rows_le :: "string list \<Rightarrow> row \<Rightarrow> row \<Rightarrow> bool" where
  "rows_le keys r s =
     (case (values_at keys r, values_at keys s) of
        (Inr a, Inr b) \<Rightarrow> py_le_list a b
      | _ \<Rightarrow> False)"

definition sorted_by :: "string list \<Rightarrow> row list \<Rightarrow> bool" where
  "sorted_by keys rows \<longleftrightarrow> (\<forall>r \<in> set rows. set keys \<subseteq> dom r) \<and> sorted_wrt (rows_le keys) rows"

text \<open>The key tuples of the two streams compare with each other (no \<^verbatim>\<open>TypeError\<close>).\<close>

definition rows_comparable :: "string list \<Rightarrow> row \<Rightarrow> row \<Rightarrow> bool" where
  "rows_comparable keys r s =
     (case (values_at keys r, values_at keys s) of
        (Inr a, Inr b) \<Rightarrow> \<not> isl (py_lt_list a b) \<and> \<not> isl (py_lt_list b a)
      | _ \<Rightarrow> False)"

definition streams_comparable :: "string list \<Rightarrow> row list \<Rightarrow> row list \<Rightarrow> bool" where
  "streams_comparable keys rows_a rows_b \<longleftrightarrow>
     (\<forall>a \<in> set rows_a. \<forall>b \<in> set rows_b. rows_comparable keys a b)"

text \<open>The objects \<^verbatim>\<open>OuterJoiner(suffix_a, suffix_b)\<close> and \<^verbatim>\<open>InnerJoiner(suffix_a, suffix_b)\<close>.\<close>

definition outer_joiner :: "string \<Rightarrow> string \<Rightarrow> joiner" where
  "outer_joiner sa sb = \<lparr>strategy = OuterJoiner, a_suffix = sa, b_suffix = sb\<rparr>"

definition inner_joiner :: "string \<Rightarrow> string \<Rightarrow> joiner" where
  "inner_joiner sa sb = \<lparr>strategy = InnerJoiner, a_suffix = sa, b_suffix = sb\<rparr>"

subsection \<open>Auxiliary notions for the proof about the driver\<close>

text \<open>The rows of the groups of one side whose key is the key of no group of the other side.\<close>

definition unmatched_groups :: "('k \<times> 'a list) list \<Rightarrow> ('k \<times> 'b list) list \<Rightarrow> 'a list" where
  "unmatched_groups ga gb = concat (map snd (filter (\<lambda>p. fst p \<notin> fst ` set gb) ga))"

text \<open>
  The groups of a sorted stream: their keys ascend strictly, no group is empty, and the
  rows have the key columns.
\<close>

definition groups_ok :: "string list \<Rightarrow> (val list \<times> row list) list \<Rightarrow> bool" where
  "groups_ok keys gs \<longleftrightarrow>
     sorted_wrt (\<lambda>p q. py_lt_list (fst p) (fst q) = Inr True) gs \<and>
     (\<forall>p \<in> set gs. snd p \<noteq> [] \<and> have_columns keys (snd p))"

definition keys_comparable :: "(val list \<times> row list) list \<Rightarrow> (val list \<times> row list) list \<Rightarrow> bool" where
  "keys_comparable ga gb \<longleftrightarrow>
     (\<forall>p \<in> set ga. \<forall>q \<in> set gb. length (fst p) = length (fst q) \<and>
        \<not> isl (py_lt_list (fst p) (fst q)) \<and> \<not> isl (py_lt_list (fst q) (fst p)))"

section \<open>Reduce and the reducers (operations/base.py, operations/reduce.py)\<close>

text \<open>
  \<^verbatim>\<open>safe_itemgetter(keys)\<close>: for no keys the function that returns \<^verbatim>\<open>[]\<close> for every row;
  otherwise \<^verbatim>\<open>itemgetter(*keys)\<close>, which returns the values of the row at the keys (the bare
  value for one key, a tuple for more; the model keeps the list of values in both cases,
  which are equal exactly when the Python keys are).
\<close>

definition safe_itemgetter :: "string list \<Rightarrow> row \<Rightarrow> error + val list" where
  "safe_itemgetter keys row = (if keys = [] then Inr [] else values_at keys row)"

text \<open>A reducer is called with the group key (the names) and the rows of one group.\<close>

type_synonym reducer = "string list \<Rightarrow> row list \<Rightarrow> error + row list"

text \<open>
  \<^verbatim>\<open>Reduce.__call__\<close>:
  \<^verbatim>\<open>
    for key, group_items in groupby(rows, key=safe_itemgetter(self.keys)):
        yield from self.reducer(tuple(self.keys), group_items)
  \<close>
  The keys of all rows are computed first here, so when both a key lookup and the reducer
  fail on one input the model reports the key lookup.
\<close>

definition Reduce_groups :: "string list \<Rightarrow> row list \<Rightarrow> error + (val list \<times> row list) list" where
  "Reduce_groups keys rows =
     (case collect (map (safe_itemgetter keys) rows) of
        Inl e \<Rightarrow> Inl e
      | Inr ks \<Rightarrow> Inr (groupby (zip ks rows)))"

definition Reduce_call :: "reducer \<Rightarrow> string list \<Rightarrow> row list \<Rightarrow> error + row list" where
  "Reduce_call reducer keys rows =
     (case Reduce_groups keys rows of
        Inl e \<Rightarrow> Inl e
      | Inr groups \<Rightarrow>
          (case collect (map (\<lambda>(key, group_items). reducer keys group_items) groups) of
             Inl e \<Rightarrow> Inl e
           | Inr outs \<Rightarrow> Inr (concat outs)))"

subsection \<open>Count\<close>

text \<open>
  \<^verbatim>\<open>
    result_row = {}
    for row in rows:
        if not result_row:
            result_row = {k: row[k] for k in group_key if k in row}
            result_row[self.column] = 1
        else:
            result_row[self.column] += 1
    yield result_row
  \<close>
\<close>

fun Count_loop :: "string \<Rightarrow> string list \<Rightarrow> row \<Rightarrow> row list \<Rightarrow> error + row" where
  "Count_loop column group_key result_row [] = Inr result_row"
| "Count_loop column group_key result_row (row # rows) =
     (if result_row = Map.empty
      then Count_loop column group_key ((row |` set group_key)(column \<mapsto> NumV 1)) rows
      else (case result_row column of
              None \<Rightarrow> Inl (KeyError column)
            | Some v \<Rightarrow>
                (case py_add v (NumV 1) of
                   Inl e \<Rightarrow> Inl e
                 | Inr v' \<Rightarrow> Count_loop column group_key (result_row(column \<mapsto> v')) rows)))"

definition Count_call :: "string \<Rightarrow> reducer" where
  "Count_call column group_key rows =
     (case Count_loop column group_key Map.empty rows of
        Inl e \<Rightarrow> Inl e
      | Inr result_row \<Rightarrow> Inr [result_row])"

subsection \<open>TopN\<close>

text \<open>
  The heap of \<^verbatim>\<open>TopN\<close> holds tuples \<^verbatim>\<open>(row[column], -i, row)\<close>. Python compares tuples
  like lists: the first component that differs decides. Two rows (dicts) do not compare.
\<close>

type_synonym entry = "val \<times> int \<times> row"

fun entry_lt :: "entry \<Rightarrow> entry \<Rightarrow> error + bool" where
  "entry_lt (v1, i1, r1) (v2, i2, r2) =
     (if v1 \<noteq> v2 then py_lt v1 v2
      else if i1 \<noteq> i2 then Inr (i1 < i2)
      else if r1 = r2 then Inr False
      else Inl TypeError)"

text \<open>
  \<^verbatim>\<open>heapq\<close> is Python's library of binary min-heaps kept in a list: \<^verbatim>\<open>heappush\<close> adds an
  item, \<^verbatim>\<open>heap[0]\<close> is the least item and \<^verbatim>\<open>heappop\<close> removes it. The library is not part
  of the repository; the model follows this contract and keeps the items in ascending
  order (an ascending list is a heap). The library's list holds the same items, possibly
  in another arrangement, so of the order in which \<^verbatim>\<open>TopN\<close> yields its rows nothing is
  claimed. \<^verbatim>\<open>heappush\<close> on a non-empty heap compares the new item with an item of the heap,
  and fails when the two do not compare.
\<close>

fun heappush :: "entry list \<Rightarrow> entry \<Rightarrow> error + entry list" where
  "heappush [] item = Inr [item]"
| "heappush (x # heap) item =
     (case entry_lt item x of
        Inl e \<Rightarrow> Inl e
      | Inr True \<Rightarrow> Inr (item # x # heap)
      | Inr False \<Rightarrow>
          (case heappush heap item of
             Inl e \<Rightarrow> Inl e
           | Inr heap' \<Rightarrow> Inr (x # heap')))"

fun heappop :: "entry list \<Rightarrow> error + (entry \<times> entry list)" where
  "heappop [] = Inl IndexError"
| "heappop (x # heap) = Inr (x, heap)"

text \<open>
  \<^verbatim>\<open>
    sorted_lst = []
    i = 0
    for row in rows:
        el = (row[self.column_max], -i, row)
        if len(sorted_lst) < self.n:
            heapq.heappush(sorted_lst, el)
        elif row[self.column_max] > sorted_lst[0][0]:
            heapq.heappop(sorted_lst)
            heapq.heappush(sorted_lst, el)
        i += 1
    for a, b, row in sorted_lst:
        yield row
  \<close>
  \<^verbatim>\<open>sorted_lst[0]\<close> on the empty list raises \<^verbatim>\<open>IndexError\<close>.
\<close>

fun TopN_loop :: "string \<Rightarrow> int \<Rightarrow> entry list \<Rightarrow> int \<Rightarrow> row list \<Rightarrow> error + entry list" where
  "TopN_loop column_max n sorted_lst i [] = Inr sorted_lst"
| "TopN_loop column_max n sorted_lst i (row # rows) =
     (case row column_max of
        None \<Rightarrow> Inl (KeyError column_max)
      | Some v \<Rightarrow>
          (let el = (v, - i, row) in
           if int (length sorted_lst) < n then
             (case heappush sorted_lst el of
                Inl e \<Rightarrow> Inl e
              | Inr heap \<Rightarrow> TopN_loop column_max n heap (i + 1) rows)
           else
             (case sorted_lst of
                [] \<Rightarrow> Inl IndexError
              | least # _ \<Rightarrow>
                  (case py_gt v (fst least) of
                     Inl e \<Rightarrow> Inl e
                   | Inr True \<Rightarrow>
                       (case heappop sorted_lst of
                          Inl e \<Rightarrow> Inl e
                        | Inr (_, popped) \<Rightarrow>
                            (case heappush popped el of
                               Inl e \<Rightarrow> Inl e
                             | Inr heap \<Rightarrow> TopN_loop column_max n heap (i + 1) rows))
                   | Inr False \<Rightarrow> TopN_loop column_max n sorted_lst (i + 1) rows))))"

definition TopN_call :: "string \<Rightarrow> int \<Rightarrow> reducer" where
  "TopN_call column_max n group_key rows =
     (case TopN_loop column_max n [] 0 rows of
        Inl e \<Rightarrow> Inl e
      | Inr sorted_lst \<Rightarrow> Inr (map (\<lambda>(a, b, row). row) sorted_lst))"

subsection \<open>TermFrequency\<close>

text \<open>
  \<^verbatim>\<open>counts\<close> is a \<^verbatim>\<open>defaultdict(int)\<close>; a dict keeps its keys in the order of their first
  insertion, and \<^verbatim>\<open>counts.items()\<close> follows it: an association list. \<^verbatim>\<open>counts[w] += 1\<close>:
\<close>

fun counts_incr :: "(val \<times> int) list \<Rightarrow> val \<Rightarrow> (val \<times> int) list" where
  "counts_incr [] w = [(w, 1)]"
| "counts_incr ((k, c) # counts) w =
     (if k = w then (k, c + 1) # counts else (k, c) # counts_incr counts w)"

text \<open>
  \<^verbatim>\<open>
    counts = defaultdict(int); counter = 0; return_row = {}
    for row in rows:
        if not return_row:
            return_row = {k: row[k] for k in group_key}
        counts[row[self.words_column]] += 1
        counter += 1
    for k, v in counts.items():
        cur_row = return_row.copy()
        cur_row[self.words_column] = k
        cur_row[self.result_column] = v / counter
        yield cur_row
  \<close>
  The quotient \<^verbatim>\<open>v / counter\<close> of two ints is a float (\<open>int_truediv\<close>).
\<close>

datatype tf_state = TF_State (counts: "(val \<times> int) list") (counter: int) (return_row: row)

fun TermFrequency_loop :: "string \<Rightarrow> string list \<Rightarrow> tf_state \<Rightarrow> row list \<Rightarrow> error + tf_state" where
  "TermFrequency_loop words_column group_key st [] = Inr st"
| "TermFrequency_loop words_column group_key st (row # rows) =
     (case (if return_row st = Map.empty then select_keys group_key row else Inr (return_row st)) of
        Inl e \<Rightarrow> Inl e
      | Inr rr \<Rightarrow>
          (case row words_column of
             None \<Rightarrow> Inl (KeyError words_column)
           | Some w \<Rightarrow>
               TermFrequency_loop words_column group_key
                 (TF_State (counts_incr (counts st) w) (counter st + 1) rr) rows))"

definition TermFrequency_call :: "string \<Rightarrow> string \<Rightarrow> reducer" where
  "TermFrequency_call words_column result_column group_key rows =
     (case TermFrequency_loop words_column group_key (TF_State [] 0 Map.empty) rows of
        Inl e \<Rightarrow> Inl e
      | Inr st \<Rightarrow>
          collect (map (\<lambda>(k, v).
              case int_truediv v (counter st) of
                Inl e \<Rightarrow> Inl e
              | Inr q \<Rightarrow> Inr ((return_row st)(words_column \<mapsto> k, result_column \<mapsto> q)))
            (counts st)))"

subsection \<open>The specification's words\<close>

text \<open>
  A partition of a stream into maximal contiguous runs of equal key: the runs put together
  give the stream, no run is empty, the rows of a run have one key, and neighbouring runs
  have different keys.
\<close>

definition spec_runs :: "('a \<Rightarrow> 'k) \<Rightarrow> 'a list \<Rightarrow> 'a list list \<Rightarrow> bool" where
  "spec_runs key rows runs \<longleftrightarrow>
     concat runs = rows \<and>
     (\<forall>g \<in> set runs. g \<noteq> [] \<and> (\<forall>x \<in> set g. key x = key (hd g))) \<and>
     distinct_adj (map (\<lambda>g. key (hd g)) runs)"

text \<open>The number in a column of a row (0 when there is none).\<close>

definition num_at :: "string \<Rightarrow> row \<Rightarrow> rat" where
  "num_at column r = (case r column of Some (NumV q) \<Rightarrow> q | _ \<Rightarrow> 0)"

text \<open>The distinct elements of a list in the order of their first occurrence.\<close>

fun first_seen :: "'a list \<Rightarrow> 'a list" where
  "first_seen [] = []"
| "first_seen (x # xs) = x # removeAll x (first_seen xs)"

text \<open>The values that the rows of a stream have in a column, in the order of the rows.\<close>

definition column_values :: "string \<Rightarrow> row list \<Rightarrow> val list" where
  "column_values column rows = List.map_filter (\<lambda>r. r column) rows"

text \<open>
  The row that the specification gives for the value \<open>v\<close> of the words column, seen \<open>cnt\<close>
  times in a group of \<open>n\<close> rows whose first row is \<open>first\<close>: the group-key columns of the
  group, the value in the words column, the frequency in the result column, and no other
  field. The frequency is the float \<open>cnt / n\<close>: the double nearest to the quotient, which is
  the quotient up to \<open>2 ^ - 53\<close>.
\<close>

definition spec_tf_row ::
  "string list \<Rightarrow> string \<Rightarrow> string \<Rightarrow> row \<Rightarrow> val \<Rightarrow> nat \<Rightarrow> nat \<Rightarrow> row \<Rightarrow> bool" where
  "spec_tf_row group_key words_column result_column first v cnt n r \<longleftrightarrow>
     (\<forall>k \<in> set group_key. k \<noteq> words_column \<longrightarrow> r k = first k) \<and>
     r words_column = Some v \<and>
     r result_column = Some (NumV (nearest_double cnt n)) \<and>
     \<bar>num_at result_column r - of_nat cnt / of_nat n\<bar> \<le> 1 / 2 ^ 53 \<and>
     dom r = set group_key \<union> {words_column, result_column}"

subsection \<open>What TopN selects, in the specification's words\<close>

text \<open>Two values compare with each other (\<^verbatim>\<open><\<close> does not raise).\<close>

definition comparable :: "val \<Rightarrow> val \<Rightarrow> bool" where
  "comparable a b \<longleftrightarrow> \<not> isl (py_lt a b)"

text \<open>Every row of the group has the column, and the values in it compare with each other.\<close>

definition column_comparable :: "string \<Rightarrow> row list \<Rightarrow> bool" where
  "column_comparable column rows \<longleftrightarrow>
     (\<forall>r \<in> set rows. \<forall>s \<in> set rows.
        (case (r column, s column) of (Some a, Some b) \<Rightarrow> comparable a b | _ \<Rightarrow> False))"

text \<open>
  Row \<open>i\<close> of the group is preferred to row \<open>j\<close>: its value in the column is larger, or the
  values are equal and row \<open>i\<close> arrived earlier.
\<close>

definition outranks :: "string \<Rightarrow> row list \<Rightarrow> nat \<Rightarrow> nat \<Rightarrow> bool" where
  "outranks column rows i j \<longleftrightarrow>
     (case ((rows ! i) column, (rows ! j) column) of
        (Some a, Some b) \<Rightarrow> py_lt b a = Inr True \<or> (a = b \<and> i < j)
      | _ \<Rightarrow> False)"

subsection \<open>Auxiliary notions for the proof about TopN\<close>

text \<open>
  A total order on values that agrees with Python's \<^verbatim>\<open><\<close> wherever that is defined, and
  puts every number below every string. It serves the proofs only: the model of the code
  compares with \<open>py_lt\<close>.
\<close>

instantiation val :: linorder
begin

definition less_eq_val :: "val \<Rightarrow> val \<Rightarrow> bool" where
  "less_eq_val a b =
     (case a of
        NumV x \<Rightarrow> (case b of NumV y \<Rightarrow> x \<le> y | StrV t \<Rightarrow> True)
      | StrV s \<Rightarrow> (case b of NumV y \<Rightarrow> False | StrV t \<Rightarrow> s \<le> t))"

definition less_val :: "val \<Rightarrow> val \<Rightarrow> bool" where
  "less_val a b = (a \<le> b \<and> \<not> b \<le> (a :: val))"

instance
proof
  fix x y z :: val
  show "(x < y) = (x \<le> y \<and> \<not> y \<le> x)"
    by (simp add: less_val_def)
  show "x \<le> x"
    by (cases x) (simp_all add: less_eq_val_def)
  show "x \<le> y \<Longrightarrow> y \<le> z \<Longrightarrow> x \<le> z"
    by (cases x; cases y; cases z) (auto simp: less_eq_val_def)
  show "x \<le> y \<Longrightarrow> y \<le> x \<Longrightarrow> x = y"
    by (cases x; cases y) (auto simp: less_eq_val_def)
  show "x \<le> y \<or> y \<le> x"
    by (cases x; cases y) (auto simp: less_eq_val_def)
qed

end

text \<open>The first two components of a heap entry, which decide every comparison in the heap.\<close>

definition key :: "entry \<Rightarrow> val \<times> int" where
  "key x = (fst x, fst (snd x))"

text \<open>The tuple \<^verbatim>\<open>el\<close> that the loop of \<^verbatim>\<open>TopN\<close> builds for row \<open>j\<close> of the group.\<close>

definition entry_at :: "string \<Rightarrow> row list \<Rightarrow> nat \<Rightarrow> entry" where
  "entry_at column rows j = (the ((rows ! j) column), - int j, rows ! j)"

text \<open>
  The invariant of the loop after \<open>m\<close> rows: the heap is in ascending order and holds
  \<open>min n m\<close> different entries of the rows seen, each larger than every entry of a row seen
  that it does not hold.
\<close>

definition topn_inv :: "string \<Rightarrow> int \<Rightarrow> row list \<Rightarrow> nat \<Rightarrow> entry list \<Rightarrow> bool" where
  "topn_inv column n rows m h \<longleftrightarrow>
     sorted (map key h) \<and> distinct h \<and> set h \<subseteq> entry_at column rows ` {..<m} \<and>
     length h = min (nat n) m \<and>
     (\<forall>x \<in> set h. \<forall>j < m. entry_at column rows j \<notin> set h \<longrightarrow>
        key (entry_at column rows j) < key x)"

section \<open>Map and the mappers (operations/base.py, operations/map.py)\<close>

text \<open>
  A mapper is called with a row object and yields rows. Some mappers assign to the row
  they are given, which the caller can observe: the result of a call is the list of the
  rows yielded together with the contents of the argument object after the call.
\<close>

type_synonym mapper = "row \<Rightarrow> error + (row list \<times> row)"

text \<open>\<^verbatim>\<open>Map.__call__\<close>: \<^verbatim>\<open>for row in rows: yield from self.mapper(row)\<close>.\<close>

definition Map_call :: "mapper \<Rightarrow> row list \<Rightarrow> error + row list" where
  "Map_call mapper rows =
     (case collect (map mapper rows) of
        Inl e \<Rightarrow> Inl e
      | Inr results \<Rightarrow> Inr (concat (map fst results)))"

text \<open>\<^verbatim>\<open>DummyMapper\<close>: \<^verbatim>\<open>yield row\<close>.\<close>

definition DummyMapper_call :: mapper where
  "DummyMapper_call row = Inr ([row], row)"

text \<open>
  \<^verbatim>\<open>string.punctuation\<close> is \<^verbatim>\<open>!"#$%&'()*+,-./:;<=>?@[\]^_`{|}~\<close>: the ASCII codes 33 to 47,
  58 to 64, 91 to 96 and 123 to 126.
\<close>

definition is_punctuation :: "char \<Rightarrow> bool" where
  "is_punctuation c =
     (let n = (of_char c :: nat) in
      (33 \<le> n \<and> n \<le> 47) \<or> (58 \<le> n \<and> n \<le> 64) \<or> (91 \<le> n \<and> n \<le> 96) \<or> (123 \<le> n \<and> n \<le> 126))"

text \<open>
  \<^verbatim>\<open>FilterPunctuation.__call__\<close>:
  \<^verbatim>\<open>
    regex = re.compile('[%s]' % re.escape(string.punctuation))
    row[self.column] = regex.sub('', row[self.column])
    yield row
  \<close>
  The substitution deletes every punctuation character; on a value that is not a string
  it raises \<^verbatim>\<open>TypeError\<close>. The assignment is to the argument itself.
\<close>

definition FilterPunctuation_call :: "string \<Rightarrow> mapper" where
  "FilterPunctuation_call column row =
     (case row column of
        None \<Rightarrow> Inl (KeyError column)
      | Some (NumV _) \<Rightarrow> Inl TypeError
      | Some (StrV tx) \<Rightarrow>
          (let row' = row(column \<mapsto> StrV (filter (\<lambda>c. \<not> is_punctuation c) tx))
           in Inr ([row'], row')))"

text \<open>
  \<^verbatim>\<open>str.lower\<close> on ASCII letters. (Python also lowers the letters outside ASCII; the model
  leaves every other byte as it is.)
\<close>

definition lower_char :: "char \<Rightarrow> char" where
  "lower_char c =
     (case map_of (zip ''ABCDEFGHIJKLMNOPQRSTUVWXYZ'' ''abcdefghijklmnopqrstuvwxyz'') c of
        Some d \<Rightarrow> d
      | None \<Rightarrow> c)"

text \<open>
  \<^verbatim>\<open>LowerCase.__call__\<close>:
  \<^verbatim>\<open>
    row[self.column] = self._lower_case(row[self.column])
    yield row
  \<close>
  A number has no method \<^verbatim>\<open>lower\<close> (\<^verbatim>\<open>AttributeError\<close>). The assignment is to the argument
  itself.
\<close>

definition LowerCase_call :: "string \<Rightarrow> mapper" where
  "LowerCase_call column row =
     (case row column of
        None \<Rightarrow> Inl (KeyError column)
      | Some (NumV _) \<Rightarrow> Inl AttributeError
      | Some (StrV tx) \<Rightarrow>
          (let row' = row(column \<mapsto> StrV (map lower_char tx))
           in Inr ([row'], row')))"

text \<open>
  A compiled regular expression is used through \<^verbatim>\<open>re.finditer\<close> only; the regex engine is
  Python's, and a pattern is represented by the function that gives, for a text, the
  spans \<^verbatim>\<open>(cur.start(), cur.end())\<close> of its successive matches.
\<close>

type_synonym pattern = "string \<Rightarrow> (nat \<times> nat) list"

text \<open>The slice \<^verbatim>\<open>text[i:j]\<close> for indices that are not negative.\<close>

definition slice :: "string \<Rightarrow> nat \<Rightarrow> nat \<Rightarrow> string" where
  "slice tx i j = drop i (take j tx)"

text \<open>
  \<^verbatim>\<open>Split.__call__\<close>:
  \<^verbatim>\<open>
    text = row[self.column]
    prev = 0
    row = row.copy()
    for cur in re.finditer(self.separator, text):
        row[self.column] = text[prev:cur.start()]
        yield row
        prev = cur.end()
        row = row.copy()
    if len(text) != prev:
        row[self.column] = text[prev:]
        yield row
  \<close>
  Every row yielded is a fresh copy, so the argument keeps its contents. The loop returns
  the rows it yields and the final \<^verbatim>\<open>prev\<close>.
\<close>

fun Split_loop :: "string \<Rightarrow> row \<Rightarrow> string \<Rightarrow> nat \<Rightarrow> (nat \<times> nat) list \<Rightarrow> row list \<times> nat" where
  "Split_loop column row tx prev [] = ([], prev)"
| "Split_loop column row tx prev ((cur_start, cur_end) # matches) =
     (let (rest, prev') = Split_loop column row tx cur_end matches
      in (row(column \<mapsto> StrV (slice tx prev cur_start)) # rest, prev'))"

definition Split_call :: "string \<Rightarrow> pattern \<Rightarrow> mapper" where
  "Split_call column separator row =
     (case row column of
        None \<Rightarrow> Inl (KeyError column)
      | Some (NumV _) \<Rightarrow> Inl TypeError
      | Some (StrV tx) \<Rightarrow>
          (let (yielded, prev) = Split_loop column row tx 0 (separator tx)
           in Inr (yielded @ (if length tx \<noteq> prev
                              then [row(column \<mapsto> StrV (drop prev tx))] else []),
                   row)))"

text \<open>\<^verbatim>\<open>Filter\<close>: \<^verbatim>\<open>if self.condition(row): yield row\<close>.\<close>

definition Filter_call :: "(row \<Rightarrow> error + bool) \<Rightarrow> mapper" where
  "Filter_call condition row =
     (case condition row of
        Inl e \<Rightarrow> Inl e
      | Inr ok \<Rightarrow> Inr (if ok then [row] else [], row))"

text \<open>\<^verbatim>\<open>Project\<close>: \<^verbatim>\<open>yield {k: row[k] for k in self.columns}\<close>.\<close>

definition Project_call :: "string list \<Rightarrow> mapper" where
  "Project_call columns row =
     (case select_keys columns row of
        Inl e \<Rightarrow> Inl e
      | Inr r \<Rightarrow> Inr ([r], row))"

text \<open>\<^verbatim>\<open>Remove\<close>: \<^verbatim>\<open>yield {k: row[k] for k in row if k not in self.columns}\<close>.\<close>

definition Remove_call :: "string list \<Rightarrow> mapper" where
  "Remove_call columns row = Inr ([row |` (- set columns)], row)"

text \<open>
  \<^verbatim>\<open>Apply\<close>:
  \<^verbatim>\<open>
    args = [row[column] for column in self.columns]
    result_row = row.copy()
    result_row[self.result_column] = self.func(*args)
    yield result_row
  \<close>
\<close>

definition Apply_call :: "string list \<Rightarrow> string \<Rightarrow> (val list \<Rightarrow> error + val) \<Rightarrow> mapper" where
  "Apply_call columns result_column func row =
     (case values_at columns row of
        Inl e \<Rightarrow> Inl e
      | Inr args \<Rightarrow>
          (case func args of
             Inl e \<Rightarrow> Inl e
           | Inr v \<Rightarrow> Inr ([row(result_column \<mapsto> v)], row)))"

text \<open>
  The pattern of a character class \<^verbatim>\<open>[...]\<close>: every character of the class is a match of
  length one. The default separator of \<^verbatim>\<open>Split\<close> is \<^verbatim>\<open>[\s+]\<close>, a whitespace character or
  \<^verbatim>\<open>+\<close> (of the whitespace characters the model knows the ASCII ones, the codes 9 to 13 and
  28 to 32).
\<close>

definition char_class :: "(char \<Rightarrow> bool) \<Rightarrow> pattern" where
  "char_class member tx = map (\<lambda>i. (i, i + 1)) (filter (\<lambda>i. member (tx ! i)) [0..<length tx])"

definition is_separator_char :: "char \<Rightarrow> bool" where
  "is_separator_char c =
     (let n = (of_char c :: nat) in (9 \<le> n \<and> n \<le> 13) \<or> (28 \<le> n \<and> n \<le> 32) \<or> n = 43)"

definition default_separator :: pattern where
  "default_separator = char_class is_separator_char"

text \<open>
  What \<^verbatim>\<open>re.finditer\<close> guarantees of the spans it returns for a text of length \<open>n\<close>: they
  come in order, do not overlap and lie inside the text.
\<close>

fun spans_ok :: "nat \<Rightarrow> nat \<Rightarrow> (nat \<times> nat) list \<Rightarrow> bool" where
  "spans_ok n prev [] = True"
| "spans_ok n prev ((s, e) # ms) = (prev \<le> s \<and> s \<le> e \<and> e \<le> n \<and> spans_ok n e ms)"

text \<open>
  The tokens of a split as the specification has them: the token before a match runs
  from the end of the match before it (from 0 for the first match) to the start of the
  match; the tail is what follows the last match.
\<close>

definition spec_tokens :: "string \<Rightarrow> (nat \<times> nat) list \<Rightarrow> string list" where
  "spec_tokens tx spans = map (\<lambda>(p, s). slice tx p s) (zip (0 # map snd spans) (map fst spans))"

definition spec_tail :: "string \<Rightarrow> (nat \<times> nat) list \<Rightarrow> string" where
  "spec_tail tx spans = drop (last (0 # map snd spans)) tx"

section \<open>The graph (graph.py, operations/read.py)\<close>

text \<open>
  The operation of a node. \<^verbatim>\<open>ExternalSort\<close> is imported by graph.py from a module that
  is not among the sources; a node only stores its keys, and \<open>run\<close> takes what the
  operation does as a parameter.
\<close>

datatype operation =
    ReadIterFactory string
  | Read string "string \<Rightarrow> error + row"
  | Map mapper
  | Reduce reducer "string list"
  | Join joiner "string list"
  | ExternalSort "string list"

text \<open>A \<^verbatim>\<open>Graph\<close> object: the fields \<^verbatim>\<open>_op\<close>, \<^verbatim>\<open>_prev\<close> and \<^verbatim>\<open>_next\<close>.\<close>

datatype graph = Graph (g_op: "operation option") (g_prev: "graph option") (g_next: "graph option")

definition graph_from_iter :: "string \<Rightarrow> graph" where
  "graph_from_iter name = Graph (Some (ReadIterFactory name)) None None"

definition graph_from_file :: "string \<Rightarrow> (string \<Rightarrow> error + row) \<Rightarrow> graph" where
  "graph_from_file filename parser = Graph (Some (Read filename parser)) None None"

definition graph_map :: "graph \<Rightarrow> mapper \<Rightarrow> graph" where
  "graph_map self mapper = Graph (Some (Map mapper)) (Some self) None"

definition graph_reduce :: "graph \<Rightarrow> reducer \<Rightarrow> string list \<Rightarrow> graph" where
  "graph_reduce self reducer keys = Graph (Some (Reduce reducer keys)) (Some self) None"

definition graph_sort :: "graph \<Rightarrow> string list \<Rightarrow> graph" where
  "graph_sort self keys = Graph (Some (ExternalSort keys)) (Some self) None"

text \<open>
  \<^verbatim>\<open>join\<close> stores \<^verbatim>\<open>join_graph\<close> in \<^verbatim>\<open>_next\<close> as it is given; Python lets a caller pass
  \<^verbatim>\<open>None\<close>.
\<close>

definition graph_join :: "graph \<Rightarrow> joiner \<Rightarrow> graph option \<Rightarrow> string list \<Rightarrow> graph" where
  "graph_join self joiner join_graph keys = Graph (Some (Join joiner keys)) (Some self) join_graph"

text \<open>
  What a run depends on besides the graph and the keyword arguments: the order in which
  the interpreter iterates sets, the sort operation, and the files that \<^verbatim>\<open>Read\<close> may open
  (a file is the list of its lines).
\<close>

record world =
  set_order :: set_iter
  external_sort :: "string list \<Rightarrow> row list \<Rightarrow> error + row list"
  files :: "string \<rightharpoonup> string list"

text \<open>
  \<^verbatim>\<open>ReadIterFactory.__call__\<close>: \<^verbatim>\<open>for row in kwargs[self.name](): yield row\<close>. A keyword
  argument is a factory of a row stream, here the list of rows it produces.
\<close>

definition ReadIterFactory_call :: "string \<Rightarrow> (string \<rightharpoonup> row list) \<Rightarrow> error + row list" where
  "ReadIterFactory_call name kwargs =
     (case kwargs name of
        None \<Rightarrow> Inl (KeyError name)
      | Some rows \<Rightarrow> Inr rows)"

text \<open>\<^verbatim>\<open>Read.__call__\<close>: every line of the file, parsed.\<close>

definition Read_call :: "world \<Rightarrow> string \<Rightarrow> (string \<Rightarrow> error + row) \<Rightarrow> error + row list" where
  "Read_call w filename parser =
     (case files w filename of
        None \<Rightarrow> Inl OSError
      | Some lines \<Rightarrow> collect (map parser lines))"

definition feed :: "error + row list \<Rightarrow> (row list \<Rightarrow> error + row list) \<Rightarrow> error + row list" where
  "feed upstream operation = (case upstream of Inl e \<Rightarrow> Inl e | Inr rows \<Rightarrow> operation rows)"

text \<open>
  \<^verbatim>\<open>Graph.run\<close>. The result is what the consumer of the generator gets: nothing runs
  before the first row is asked for, so every failure, also of an assertion, is a failure
  of the stream. A failed \<^verbatim>\<open>assert\<close> raises \<^verbatim>\<open>AssertionError\<close>.
  \<^verbatim>\<open>
    if isinstance(self._op, ops.ReadIterFactory) or isinstance(self._op, ops.Read):
        assert self._prev is None and self._next is None
        yield from self._op(**kwargs)
    elif isinstance(self._op, ops.Join):
        assert self._next is not None and self._prev is not None
        yield from self._op(self._prev.run(**kwargs), self._next.run(**kwargs))
    else:
        assert isinstance(self._op, ops.Map) or isinstance(self._op, ops.Reduce) or
               isinstance(self._op, ExternalSort)
        assert self._next is None and self._prev is not None
        yield from self._op(self._prev.run(**kwargs))
  \<close>
  The upstream of an operation is run to its end before the operation starts; a join runs
  its left input first, the one Python asks first for a row.
\<close>

fun run :: "world \<Rightarrow> (string \<rightharpoonup> row list) \<Rightarrow> graph \<Rightarrow> error + row list" where
  "run w kwargs (Graph (Some (ReadIterFactory name)) None None) = ReadIterFactory_call name kwargs"
| "run w kwargs (Graph (Some (ReadIterFactory name)) _ _) = Inl AssertionError"
| "run w kwargs (Graph (Some (Read filename parser)) None None) = Read_call w filename parser"
| "run w kwargs (Graph (Some (Read filename parser)) _ _) = Inl AssertionError"
| "run w kwargs (Graph (Some (Join joiner keys)) (Some prev) (Some side)) =
     feed (run w kwargs prev) (\<lambda>rows.
       feed (run w kwargs side) (\<lambda>rows_right.
         Join_call (set_order w) joiner keys rows rows_right))"
| "run w kwargs (Graph (Some (Join joiner keys)) _ _) = Inl AssertionError"
| "run w kwargs (Graph None _ _) = Inl AssertionError"
| "run w kwargs (Graph (Some (Map mapper)) (Some prev) None) =
     feed (run w kwargs prev) (Map_call mapper)"
| "run w kwargs (Graph (Some (Reduce reducer keys)) (Some prev) None) =
     feed (run w kwargs prev) (Reduce_call reducer keys)"
| "run w kwargs (Graph (Some (ExternalSort keys)) (Some prev) None) =
     feed (run w kwargs prev) (external_sort w keys)"
| "run w kwargs (Graph _ _ _) = Inl AssertionError"

text \<open>
  The source a run reads first: graphs built from \<^verbatim>\<open>graph_from_iter(name)\<close> by \<^verbatim>\<open>map\<close>,
  \<^verbatim>\<open>reduce\<close> and \<^verbatim>\<open>sort\<close>, and by \<^verbatim>\<open>join\<close> on the left.
\<close>

fun reads_first :: "graph \<Rightarrow> string \<Rightarrow> bool" where
  "reads_first (Graph (Some (ReadIterFactory n)) None None) name = (n = name)"
| "reads_first (Graph (Some (Map mapper)) (Some prev) None) name = reads_first prev name"
| "reads_first (Graph (Some (Reduce reducer keys)) (Some prev) None) name = reads_first prev name"
| "reads_first (Graph (Some (ExternalSort keys)) (Some prev) None) name = reads_first prev name"
| "reads_first (Graph (Some (Join joiner keys)) (Some prev) (Some side)) name = reads_first prev name"
| "reads_first _ name = False"

section \<open>Verification: the product of two rows\<close>

lemma collect_map_Inr: "collect (map Inr xs) = Inr xs"
  by (induction xs) auto

lemma fold_suffix_other:
  "x \<notin> (\<lambda>k. k @ sa) ` set cs \<union> (\<lambda>k. k @ sb) ` set cs \<Longrightarrow>
   fold (\<lambda>k r. r(k @ sa := a k, k @ sb := b k)) cs r x = r x"
  by (induction cs arbitrary: r) auto

lemma fold_suffix_a:
  "k \<in> set cs \<Longrightarrow> \<forall>k'\<in>set cs. k @ sa \<noteq> k' @ sb \<Longrightarrow>
   fold (\<lambda>k r. r(k @ sa := a k, k @ sb := b k)) cs r (k @ sa) = a k"
  by (induction cs arbitrary: r rule: rev_induct) auto

lemma fold_suffix_b:
  "k \<in> set cs \<Longrightarrow> \<forall>k'\<in>set cs. k' @ sa \<noteq> k @ sb \<Longrightarrow>
   fold (\<lambda>k r. r(k @ sa := a k, k @ sb := b k)) cs r (k @ sb) = b k"
  by (induction cs arbitrary: r rule: rev_induct) auto

lemma concat_map_Nil: "collect (concat (map (\<lambda>a. []) xs)) = Inr []"
  by (induction xs) auto

lemma prod_row_ok:
  assumes "set keys \<subseteq> dom a"
  shows "\<exists>r. prod_row iter keys sa sb a b = Inr r"
  using assms by (auto simp: prod_row_def Let_def find_None_iff split: option.splits)

lemma prod_row_spec:
  assumes keys: "set keys \<subseteq> dom a"
    and iter: "set (iter (common_cols keys a b)) = common_cols keys a b"
    and clash: "no_suffix_clash keys sa sb a b"
    and r: "prod_row iter keys sa sb a b = Inr r"
  shows "spec_product_row keys sa sb a b r"
proof -
  let ?C = "common_cols keys a b"
  let ?f = "\<lambda>k r. r(k @ sa := a k, k @ sb := b k)"
  let ?row0 = "\<lambda>k. if k \<in> set keys then a k else None"
  let ?row1 = "fold ?f (iter ?C) ?row0"
  have none: "find (\<lambda>k. a k = None) keys = None"
    using keys by (auto simp: find_None_iff)
  have r_eq: "r = ?row1 ++ (a |` (dom a - dom a \<inter> dom b)) ++ (b |` (dom b - dom a \<inter> dom b))"
    using r none by (simp add: prod_row_def Let_def common_cols_def)
  have lookup: "r x = (if x \<in> dom b - dom a then b x else if x \<in> dom a - dom b then a x else ?row1 x)" for x
    unfolding r_eq by (auto simp: map_add_def restrict_map_def split: option.splits)
  have c1: "k @ sa \<noteq> k' @ sb" if "k \<in> ?C" "k' \<in> ?C" for k k'
    using clash that by (auto simp: no_suffix_clash_def)
  have c2: "k @ sa \<notin> set keys \<union> (dom a - dom b) \<union> (dom b - dom a)"
           "k @ sb \<notin> set keys \<union> (dom a - dom b) \<union> (dom b - dom a)" if "k \<in> ?C" for k
    using clash that by (auto simp: no_suffix_clash_def)
  have row1_other: "?row1 x = ?row0 x" if "x \<notin> (\<lambda>k. k @ sa) ` ?C \<union> (\<lambda>k. k @ sb) ` ?C" for x
    using that fold_suffix_other[of x sa "iter ?C" sb a b ?row0] iter by simp
  have row1_a: "?row1 (k @ sa) = a k" if "k \<in> ?C" for k
    using that fold_suffix_a[of k "iter ?C" sa sb a b ?row0] iter c1 by auto
  have row1_b: "?row1 (k @ sb) = b k" if "k \<in> ?C" for k
    using that fold_suffix_b[of k "iter ?C" sa sb a b ?row0] iter c1 by auto
  have C_dom: "k \<in> dom a \<and> k \<in> dom b \<and> k \<notin> set keys" if "k \<in> ?C" for k
    using that by (auto simp: common_cols_def)
  have p1: "\<forall>k \<in> set keys. r k = a k"
  proof
    fix k assume k: "k \<in> set keys"
    then have "k \<in> dom a" using keys by auto
    moreover have "k \<notin> (\<lambda>k. k @ sa) ` ?C \<union> (\<lambda>k. k @ sb) ` ?C"
      using c2 k by auto
    ultimately show "r k = a k"
      using k by (simp add: lookup row1_other)
  qed
  have p2: "\<forall>k \<in> ?C. r (k @ sa) = a k \<and> r (k @ sb) = b k"
  proof
    fix k assume k: "k \<in> ?C"
    have "k @ sa \<notin> dom b - dom a" "k @ sa \<notin> dom a - dom b"
         "k @ sb \<notin> dom b - dom a" "k @ sb \<notin> dom a - dom b"
      using c2[OF k] by blast+
    then have "r (k @ sa) = ?row1 (k @ sa)" "r (k @ sb) = ?row1 (k @ sb)"
      unfolding lookup by (simp_all only: if_False)
    then show "r (k @ sa) = a k \<and> r (k @ sb) = b k"
      using row1_a[OF k] row1_b[OF k] by simp
  qed
  have p3: "\<forall>k \<in> dom a - dom b - set keys. r k = a k"
    by (auto simp: lookup)
  have p4: "\<forall>k \<in> dom b - dom a - set keys. r k = b k"
    by (auto simp: lookup)
  have p5: "dom r = set keys \<union> (\<lambda>k. k @ sa) ` ?C \<union> (\<lambda>k. k @ sb) ` ?C
               \<union> (dom a - dom b - set keys) \<union> (dom b - dom a - set keys)" (is "_ = ?D")
  proof (rule set_eqI)
    fix x
    show "x \<in> dom r \<longleftrightarrow> x \<in> ?D"
    proof (cases "x \<in> (\<lambda>k. k @ sa) ` ?C \<union> (\<lambda>k. k @ sb) ` ?C")
      case True
      then obtain k where k: "k \<in> ?C" "x = k @ sa \<or> x = k @ sb" by auto
      then have "r x = a k \<or> r x = b k" using p2 by auto
      then have "x \<in> dom r" using C_dom[OF k(1)] by auto
      then show ?thesis using True by auto
    next
      case False
      then show ?thesis
        using keys by (auto simp: lookup row1_other split: if_splits)
    qed
  qed
  show ?thesis
    unfolding spec_product_row_def using p1 p2 p3 p4 p5 by blast
qed

lemma collect_concat_prod_ok:
  assumes "\<forall>a \<in> set rows_a. set keys \<subseteq> dom a"
  shows "\<exists>rs. collect (concat (map (\<lambda>a. map (\<lambda>b. prod_row iter keys sa sb a b) rows_b) rows_a)) = Inr rs
           \<and> length rs = length rows_a * length rows_b"
proof -
  define f where "f = (\<lambda>a b. SOME r. prod_row iter keys sa sb a b = Inr r)"
  have f: "prod_row iter keys sa sb a b = Inr (f a b)" if "a \<in> set rows_a" for a b
    unfolding f_def using prod_row_ok[of keys a iter sa sb b] assms that by (auto intro: someI_ex)
  have "concat (map (\<lambda>a. map (\<lambda>b. prod_row iter keys sa sb a b) rows_b) rows_a)
        = map Inr (concat (map (\<lambda>a. map (f a) rows_b) rows_a))"
    using f by (induction rows_a) (auto simp: map_concat)
  then show ?thesis
    by (simp add: collect_map_Inr length_concat comp_def sum_list_triv)
qed

text \<open>
  C1 (as amended). For a pair of rows \<open>(a, b)\<close> where \<open>a\<close> has every key column, and where no
  suffixed name clashes with another field of the product (\<open>no_suffix_clash\<close>),
  \<^verbatim>\<open>prod_tables\<close> emits exactly one row for the pair, and it is the row of the
  specification (\<open>spec_product_row\<close>): the keys from \<open>a\<close>, every other column of both rows
  under its two suffixed names, every column of one row only copied, and nothing else.
  \<^verbatim>\<open>InnerJoiner\<close> emits the product rows of all pairs \<open>(a, b)\<close>, \<open>a\<close> from the left group and
  \<open>b\<close> from the right group, the left row varying slowest; when the left rows have the key
  columns these are \<open>length rows_a * length rows_b\<close> rows.
\<close>

theorem prod_tables_product_row:
  assumes "set keys \<subseteq> dom a"
    and "set (iter (common_cols keys a b)) = common_cols keys a b"
    and "no_suffix_clash keys suffix_a suffix_b a b"
  shows "(\<exists>r. prod_tables iter keys suffix_a suffix_b [a] [b] = Inr [r]
              \<and> spec_product_row keys suffix_a suffix_b a b r)
       \<and> InnerJoiner_call iter self ks rows_a rows_b
           = collect (concat (map (\<lambda>a. map (\<lambda>b. prod_row iter ks (a_suffix self) (b_suffix self) a b)
                                        rows_b) rows_a))
       \<and> ((\<forall>a \<in> set rows_a. set ks \<subseteq> dom a) \<longrightarrow>
            (\<exists>rs. InnerJoiner_call iter self ks rows_a rows_b = Inr rs
                  \<and> length rs = length rows_a * length rows_b))"
proof -
  obtain r where r: "prod_row iter keys suffix_a suffix_b a b = Inr r"
    using prod_row_ok[OF assms(1)] by blast
  have 1: "prod_tables iter keys suffix_a suffix_b [a] [b] = Inr [r]"
    by (simp add: prod_tables_def r)
  have 2: "spec_product_row keys suffix_a suffix_b a b r"
    using prod_row_spec[OF assms r] .
  have 3: "InnerJoiner_call iter self ks rows_a rows_b
           = collect (concat (map (\<lambda>a. map (\<lambda>b. prod_row iter ks (a_suffix self) (b_suffix self) a b)
                                        rows_b) rows_a))"
    by (cases "rows_b = []") (simp_all add: InnerJoiner_call_def prod_tables_def concat_map_Nil)
  have 4: "(\<forall>a \<in> set rows_a. set ks \<subseteq> dom a) \<longrightarrow>
            (\<exists>rs. InnerJoiner_call iter self ks rows_a rows_b = Inr rs
                  \<and> length rs = length rows_a * length rows_b)"
    unfolding 3 using collect_concat_prod_ok by blast
  show ?thesis using 1 2 3 4 by blast
qed

theorem prod_tables_product_row_witness:
  "set [''k''] \<subseteq> dom [''k'' \<mapsto> NumV 1, ''v'' \<mapsto> StrV ''a'', ''x'' \<mapsto> NumV 3]
   \<and> no_suffix_clash [''k''] ''_1'' ''_2''
        [''k'' \<mapsto> NumV 1, ''v'' \<mapsto> StrV ''a'', ''x'' \<mapsto> NumV 3]
        [''k'' \<mapsto> NumV 1, ''v'' \<mapsto> StrV ''b'', ''w'' \<mapsto> NumV 10]
   \<and> (\<exists>r. prod_tables sorted_list_of_set [''k''] ''_1'' ''_2''
             [[''k'' \<mapsto> NumV 1, ''v'' \<mapsto> StrV ''a'', ''x'' \<mapsto> NumV 3]]
             [[''k'' \<mapsto> NumV 1, ''v'' \<mapsto> StrV ''b'', ''w'' \<mapsto> NumV 10]] = Inr [r]
          \<and> spec_product_row [''k''] ''_1'' ''_2''
               [''k'' \<mapsto> NumV 1, ''v'' \<mapsto> StrV ''a'', ''x'' \<mapsto> NumV 3]
               [''k'' \<mapsto> NumV 1, ''v'' \<mapsto> StrV ''b'', ''w'' \<mapsto> NumV 10] r)
   \<and> (\<exists>rs. InnerJoiner_call sorted_list_of_set
              \<lparr>strategy = InnerJoiner, a_suffix = ''_1'', b_suffix = ''_2''\<rparr> [''k'']
              [[''k'' \<mapsto> NumV 1, ''v'' \<mapsto> StrV ''a'', ''x'' \<mapsto> NumV 3]]
              [[''k'' \<mapsto> NumV 1, ''v'' \<mapsto> StrV ''b'', ''w'' \<mapsto> NumV 10]] = Inr rs
           \<and> length rs = 1)"
proof -
  let ?a = "[''k'' \<mapsto> NumV 1, ''v'' \<mapsto> StrV ''a'', ''x'' \<mapsto> NumV 3]"
  let ?b = "[''k'' \<mapsto> NumV 1, ''v'' \<mapsto> StrV ''b'', ''w'' \<mapsto> NumV 10]"
  have C: "common_cols [''k''] ?a ?b = {''v''}"
    by (auto simp: common_cols_def)
  have h1: "set [''k''] \<subseteq> dom ?a" by simp
  have h2: "set (sorted_list_of_set (common_cols [''k''] ?a ?b)) = common_cols [''k''] ?a ?b"
    unfolding C by simp
  have h3: "no_suffix_clash [''k''] ''_1'' ''_2'' ?a ?b"
    unfolding no_suffix_clash_def C by simp
  note T = prod_tables_product_row[where keys = "[''k'']" and a = ?a and b = ?b
      and iter = sorted_list_of_set and suffix_a = "''_1''" and suffix_b = "''_2''"
      and self = "\<lparr>strategy = InnerJoiner, a_suffix = ''_1'', b_suffix = ''_2''\<rparr>"
      and ks = "[''k'']" and rows_a = "[?a]" and rows_b = "[?b]", OF h1 h2 h3]
  have c1: "\<exists>r. prod_tables sorted_list_of_set [''k''] ''_1'' ''_2'' [?a] [?b] = Inr [r]
          \<and> spec_product_row [''k''] ''_1'' ''_2'' ?a ?b r"
    using T by (elim conjE)
  have "(\<forall>a \<in> set [?a]. set [''k''] \<subseteq> dom a) \<longrightarrow>
        (\<exists>rs. InnerJoiner_call sorted_list_of_set
              \<lparr>strategy = InnerJoiner, a_suffix = ''_1'', b_suffix = ''_2''\<rparr> [''k''] [?a] [?b] = Inr rs
           \<and> length rs = length [?a] * length [?b])"
    using T by (elim conjE)
  then have c2: "\<exists>rs. InnerJoiner_call sorted_list_of_set
              \<lparr>strategy = InnerJoiner, a_suffix = ''_1'', b_suffix = ''_2''\<rparr> [''k''] [?a] [?b] = Inr rs
           \<and> length rs = 1"
    by simp
  show ?thesis
    by (intro conjI) (rule h1 h3 c1 c2)+
qed

text \<open>
  The claim as it was stated, without the proviso on the names, fails: with no keys and the
  default suffixes, the left row \<^verbatim>\<open>{x: 1, x_1: 5}\<close> and the right row \<^verbatim>\<open>{x: 2}\<close> share the
  column \<open>x\<close>, so the product should hold \<open>x_1 = 1\<close>; the copy of the left row's own column
  \<open>x_1\<close> overwrites it with \<open>5\<close>. (The only set iterated has one element, so the order of
  iteration plays no part.)
\<close>

theorem prod_tables_suffix_clash_counterexample:
  "prod_tables sorted_list_of_set [] ''_1'' ''_2''
      [[''x'' \<mapsto> NumV 1, ''x_1'' \<mapsto> NumV 5]] [[''x'' \<mapsto> NumV 2]]
     = Inr [[''x_1'' \<mapsto> NumV 5, ''x_2'' \<mapsto> NumV 2]]
   \<and> \<not> spec_product_row [] ''_1'' ''_2''
        [''x'' \<mapsto> NumV 1, ''x_1'' \<mapsto> NumV 5] [''x'' \<mapsto> NumV 2]
        [''x_1'' \<mapsto> NumV 5, ''x_2'' \<mapsto> NumV 2]"
proof -
  let ?a = "[''x'' \<mapsto> NumV 1, ''x_1'' \<mapsto> NumV 5]"
  let ?b = "[''x'' \<mapsto> NumV 2]"
  have "prod_row sorted_list_of_set [] ''_1'' ''_2'' ?a ?b
          = Inr [''x_1'' \<mapsto> NumV 5, ''x_2'' \<mapsto> NumV 2]"
    apply (simp add: prod_row_def Let_def)
    apply (rule ext)
    apply (simp add: map_add_def restrict_map_def)
    done
  then have 1: "prod_tables sorted_list_of_set [] ''_1'' ''_2'' [?a] [?b]
          = Inr [[''x_1'' \<mapsto> NumV 5, ''x_2'' \<mapsto> NumV 2]]"
    by (simp add: prod_tables_def)
  have "''x'' \<in> common_cols [] ?a ?b"
    by (simp add: common_cols_def)
  moreover have "[''x_1'' \<mapsto> NumV 5, ''x_2'' \<mapsto> NumV 2] (''x'' @ ''_1'') \<noteq> ?a ''x''"
    by simp
  ultimately have 2: "\<not> spec_product_row [] ''_1'' ''_2'' ?a ?b [''x_1'' \<mapsto> NumV 5, ''x_2'' \<mapsto> NumV 2]"
    unfolding spec_product_row_def by blast
  show ?thesis using 1 2 by blast
qed

section \<open>Verification: grouping, Reduce and Count\<close>

lemma collect_Inr_D: "collect rs = Inr xs \<Longrightarrow> rs = map Inr xs"
proof (induction rs arbitrary: xs)
  case Nil
  then show ?case by auto
next
  case (Cons r rs)
  show ?case
  proof (cases r)
    case (Inl e)
    then show ?thesis using Cons.prems by simp
  next
    case (Inr y)
    with Cons.prems obtain ys where ys: "collect rs = Inr ys" "xs = y # ys"
      by (auto split: sum.splits)
    then show ?thesis using Cons.IH[OF ys(1)] Inr by simp
  qed
qed

lemma collect_Inr_conv: "collect rs = Inr xs \<longleftrightarrow> rs = map Inr xs"
  using collect_Inr_D collect_map_Inr by blast

lemma collect_map_total:
  assumes "\<forall>x \<in> set xs. \<exists>y. f x = Inr y"
  shows "\<exists>ys. collect (map f xs) = Inr ys"
  using assms
proof (induction xs)
  case Nil
  then show ?case by simp
next
  case (Cons x xs)
  then obtain y ys where "f x = Inr y" "collect (map f xs) = Inr ys" by auto
  then show ?case by simp
qed

lemma values_at_total: "set keys \<subseteq> dom r \<Longrightarrow> \<exists>vs. values_at keys r = Inr vs"
  unfolding values_at_def
  by (rule collect_map_total) (auto split: option.splits)

lemma safe_itemgetter_eq: "safe_itemgetter keys r = values_at keys r"
  by (simp add: safe_itemgetter_def values_at_def)

lemma zip_keyed:
  assumes "map f rows = map Inr ks" and "(k, r) \<in> set (zip ks rows)"
  shows "f r = Inr k"
proof -
  from assms(2) obtain i where i: "i < length ks" "i < length rows" "ks ! i = k" "rows ! i = r"
    by (auto simp: in_set_zip)
  have "map f rows ! i = map Inr ks ! i" using assms(1) by simp
  then show ?thesis using i by simp
qed

lemma groupby_concat_snd: "concat (map snd (groupby kx)) = map snd kx"
proof (induction kx rule: groupby.induct)
  case 1
  then show ?case by simp
next
  case (2 k x rest)
  have "map snd (takeWhile (\<lambda>p. fst p = k) rest) @ map snd (dropWhile (\<lambda>p. fst p = k) rest) = map snd rest"
    by (simp flip: map_append)
  then show ?case using 2 by simp
qed

lemma groupby_member:
  "(k, g) \<in> set (groupby kx) \<Longrightarrow> g \<noteq> [] \<and> (\<forall>x \<in> set g. (k, x) \<in> set kx)"
proof (induction kx rule: groupby.induct)
  case 1
  then show ?case by simp
next
  case (2 k' x rest)
  show ?case
  proof (cases "(k, g) = (k', x # map snd (takeWhile (\<lambda>p. fst p = k') rest))")
    case True
    have "(k', y) \<in> set rest" if "y \<in> snd ` set (takeWhile (\<lambda>p. fst p = k') rest)" for y
    proof -
      from that obtain p where p: "p \<in> set (takeWhile (\<lambda>p. fst p = k') rest)" "y = snd p" by auto
      then have "fst p = k'" "p \<in> set rest"
        by (auto dest: set_takeWhileD)
      then show ?thesis using p by (cases p) auto
    qed
    then show ?thesis using True by auto
  next
    case False
    then have "(k, g) \<in> set (groupby (dropWhile (\<lambda>p. fst p = k') rest))"
      using "2.prems" by auto
    from "2.IH"[OF this] show ?thesis
      by (auto dest: set_dropWhileD)
  qed
qed

lemma groupby_hd_key:
  "kx \<noteq> [] \<Longrightarrow> groupby kx \<noteq> [] \<and> fst (hd (groupby kx)) = fst (hd kx)"
  by (cases kx rule: groupby.cases) auto

lemma groupby_distinct_adj: "distinct_adj (map fst (groupby kx))"
proof (induction kx rule: groupby.induct)
  case 1
  then show ?case by simp
next
  case (2 k x rest)
  let ?d = "dropWhile (\<lambda>p. fst p = k) rest"
  show ?case
  proof (cases "?d = []")
    case True
    then have "groupby ?d = []" by (simp only: groupby.simps)
    then show ?thesis by (simp del: dropWhile_eq_Nil_conv)
  next
    case False
    then have "fst (hd ?d) \<noteq> k"
      using hd_dropWhile[of "\<lambda>p. fst p = k" rest] by simp
    then have "fst (hd (groupby ?d)) \<noteq> k" "groupby ?d \<noteq> []"
      using groupby_hd_key[OF False] by simp_all
    then show ?thesis
      using 2 by (cases "groupby ?d") (auto simp: distinct_adj_Cons)
  qed
qed

lemma groupby_single:
  "kx \<noteq> [] \<Longrightarrow> \<forall>p \<in> set kx. fst p = k \<Longrightarrow> groupby kx = [(k, map snd kx)]"
proof (cases kx rule: groupby.cases)
  case 1
  assume "kx \<noteq> []"
  with 1 show ?thesis by simp
next
  case (2 k' x rest)
  assume all: "\<forall>p \<in> set kx. fst p = k"
  with 2 have k': "k' = k" and "\<forall>p \<in> set rest. fst p = k" by auto
  then have t: "takeWhile (\<lambda>p. fst p = k) rest = rest" and d: "dropWhile (\<lambda>p. fst p = k) rest = []"
    by auto
  have "groupby ((k, x) # rest) = [(k, x # map snd rest)]"
    by (simp only: groupby.simps t d)
  then show ?thesis using 2 k' by simp
qed

lemma py_lt_asym: "py_lt a b = Inr True \<Longrightarrow> py_lt b a = Inr False"
  by (cases a; cases b) auto

lemma py_lt_list_asym: "py_lt_list a b = Inr True \<Longrightarrow> py_lt_list b a \<noteq> Inr True"
  by (induction a b rule: py_lt_list.induct) (auto dest: py_lt_asym split: if_splits)

lemma py_lt_list_irrefl: "py_lt_list a a = Inr False"
  by (induction a) auto

lemma py_le_list_antisym: "py_le_list a b \<Longrightarrow> py_le_list b a \<Longrightarrow> a = b"
  unfolding py_le_list_def using py_lt_list_asym by blast

lemma groupby_keys_subset: "fst ` set (groupby kx) \<subseteq> fst ` set kx"
proof
  fix k assume "k \<in> fst ` set (groupby kx)"
  then obtain g where g: "(k, g) \<in> set (groupby kx)" by auto
  from groupby_member[OF g] have "(k, hd g) \<in> set kx" by (cases g) auto
  then show "k \<in> fst ` set kx" by force
qed

lemma groupby_keys_sup: "fst ` set kx \<subseteq> fst ` set (groupby kx)"
proof (induction kx rule: groupby.induct)
  case 1
  then show ?case by simp
next
  case (2 k x rest)
  have "fst ` set rest \<subseteq> insert k (fst ` set (dropWhile (\<lambda>p. fst p = k) rest))"
  proof
    fix k' assume "k' \<in> fst ` set rest"
    then obtain p where p: "p \<in> set rest" "fst p = k'" by auto
    have "set rest = set (takeWhile (\<lambda>p. fst p = k) rest) \<union> set (dropWhile (\<lambda>p. fst p = k) rest)"
      by (metis set_append takeWhile_dropWhile_id)
    with p consider "p \<in> set (takeWhile (\<lambda>p. fst p = k) rest)" | "p \<in> set (dropWhile (\<lambda>p. fst p = k) rest)"
      by auto
    then show "k' \<in> insert k (fst ` set (dropWhile (\<lambda>p. fst p = k) rest))"
    proof cases
      case 1
      then have "fst p = k" by (auto dest: set_takeWhileD)
      then show ?thesis using p by simp
    next
      case 2
      then show ?thesis using p by force
    qed
  qed
  then show ?case using 2 by auto
qed

lemma groupby_sorted_distinct:
  assumes antisym: "\<And>a b. le a b \<Longrightarrow> le b a \<Longrightarrow> a = b"
  shows "sorted_wrt le (map fst kx) \<Longrightarrow> distinct (map fst (groupby kx))"
proof (induction kx rule: groupby.induct)
  case 1
  then show ?case by simp
next
  case (2 k x rest)
  let ?d = "dropWhile (\<lambda>p. fst p = k) rest"
  have d_drop: "?d = drop (length (takeWhile (\<lambda>p. fst p = k) rest)) rest"
    by (rule dropWhile_eq_drop)
  from "2.prems" have le_k: "\<forall>p \<in> set rest. le k (fst p)" and sorted_rest: "sorted_wrt le (map fst rest)"
    by auto
  have sorted_d: "sorted_wrt le (map fst ?d)"
    unfolding d_drop using sorted_rest by (simp add: sorted_wrt_drop flip: drop_map)
  have "k \<notin> fst ` set ?d"
  proof
    assume "k \<in> fst ` set ?d"
    then obtain y where y: "(k, y) \<in> set ?d" by force
    then have ne: "?d \<noteq> []" by (auto simp del: dropWhile_eq_Nil_conv)
    then obtain k1 y1 tl where d: "?d = (k1, y1) # tl" by (cases ?d) (auto simp del: dropWhile_eq_Nil_conv)
    have "fst (hd ?d) \<noteq> k"
      using hd_dropWhile[OF ne] by simp
    then have k1: "k1 \<noteq> k" using d by simp
    have "(k1, y1) \<in> set rest"
      using d by (metis list.set_intros(1) set_dropWhileD)
    then have 1: "le k k1" using le_k by auto
    from y d k1 have "(k, y) \<in> set tl" by auto
    then have 2: "le k1 k"
      using sorted_d d by force
    from antisym[OF 1 2] k1 show False by simp
  qed
  then have "k \<notin> fst ` set (groupby ?d)"
    using groupby_keys_subset[of ?d] by blast
  then show ?case
    using "2.IH"[OF sorted_d] by simp
qed

lemma Count_loop_counting:
  "m column = Some (NumV c) \<Longrightarrow>
   Count_loop column gk m rows = Inr (m(column \<mapsto> NumV (c + of_nat (length rows))))"
proof (induction rows arbitrary: m c)
  case Nil
  then show ?case by (simp add: map_upd_triv)
next
  case (Cons r rows)
  from Cons.prems have ne: "m \<noteq> Map.empty" by auto
  have "Count_loop column gk m (r # rows) = Count_loop column gk (m(column \<mapsto> NumV (c + 1))) rows"
    using Cons.prems ne by simp
  also have "\<dots> = Inr ((m(column \<mapsto> NumV (c + 1)))(column \<mapsto> NumV (c + 1 + of_nat (length rows))))"
    by (rule Cons.IH) simp
  also have "(m(column \<mapsto> NumV (c + 1)))(column \<mapsto> NumV (c + 1 + of_nat (length rows)))
             = m(column \<mapsto> NumV (c + of_nat (length (r # rows))))"
    by (simp add: algebra_simps)
  finally show ?case .
qed

lemma Count_call_group:
  "g \<noteq> [] \<Longrightarrow> Count_call column gk g = Inr [(hd g |` set gk)(column \<mapsto> NumV (of_nat (length g)))]"
proof (cases g)
  case Nil
  assume "g \<noteq> []"
  with Nil show ?thesis by simp
next
  case (Cons r rs)
  have "Count_loop column gk Map.empty (r # rs)
        = Count_loop column gk ((r |` set gk)(column \<mapsto> NumV 1)) rs"
    by simp
  also have "\<dots> = Inr (((r |` set gk)(column \<mapsto> NumV 1))(column \<mapsto> NumV (1 + of_nat (length rs))))"
    by (rule Count_loop_counting) simp
  also have "((r |` set gk)(column \<mapsto> NumV 1))(column \<mapsto> NumV (1 + of_nat (length rs)))
             = (hd g |` set gk)(column \<mapsto> NumV (of_nat (length g)))"
    using Cons by (simp add: algebra_simps)
  finally have "Count_loop column gk Map.empty (r # rs)
        = Inr ((hd g |` set gk)(column \<mapsto> NumV (of_nat (length g))))" .
  then have "Count_loop column gk Map.empty g
        = Inr ((hd g |` set gk)(column \<mapsto> NumV (of_nat (length g))))"
    unfolding Cons .
  then show ?thesis
    unfolding Count_call_def by (simp only: sum.case)
qed

lemma safe_itemgetter_fun_eq: "safe_itemgetter keys = values_at keys"
  by (rule ext) (rule safe_itemgetter_eq)

lemma Reduce_groups_total:
  assumes "have_columns keys rows"
  shows "\<exists>ks. map (values_at keys) rows = map Inr ks \<and> length ks = length rows
            \<and> Reduce_groups keys rows = Inr (groupby (zip ks rows))"
proof -
  have "\<forall>r \<in> set rows. \<exists>vs. safe_itemgetter keys r = Inr vs"
    using assms values_at_total by (simp add: safe_itemgetter_eq have_columns_def)
  then obtain ks where ks: "collect (map (safe_itemgetter keys) rows) = Inr ks"
    using collect_map_total by blast
  then have m: "map (safe_itemgetter keys) rows = map Inr ks"
    by (rule collect_Inr_D)
  then have "map (values_at keys) rows = map Inr ks"
    by (simp only: safe_itemgetter_fun_eq)
  moreover have "length ks = length rows"
    using m by (metis length_map)
  moreover have "Reduce_groups keys rows = Inr (groupby (zip ks rows))"
    by (simp add: Reduce_groups_def ks)
  ultimately show ?thesis by blast
qed

lemma groups_facts:
  assumes m: "map f rows = map Inr ks" and len: "length ks = length rows"
  shows "concat (map snd (groupby (zip ks rows))) = rows"
    and "(k, g) \<in> set (groupby (zip ks rows)) \<Longrightarrow> g \<noteq> [] \<and> (\<forall>x \<in> set g. f x = Inr k)"
    and "distinct_adj (map fst (groupby (zip ks rows)))"
    and "fst ` set (groupby (zip ks rows)) = set ks"
proof -
  show "concat (map snd (groupby (zip ks rows))) = rows"
    using len by (simp add: groupby_concat_snd)
  show "g \<noteq> [] \<and> (\<forall>x \<in> set g. f x = Inr k)" if "(k, g) \<in> set (groupby (zip ks rows))"
    using groupby_member[OF that] zip_keyed[OF m] by blast
  show "distinct_adj (map fst (groupby (zip ks rows)))"
    by (rule groupby_distinct_adj)
  have "fst ` set (zip ks rows) = set ks"
    using len by (metis map_fst_zip set_map)
  then show "fst ` set (groupby (zip ks rows)) = set ks"
    using groupby_keys_subset[of "zip ks rows"] groupby_keys_sup[of "zip ks rows"] by blast
qed

text \<open>
  C2. On a stream whose rows have the key columns, \<^verbatim>\<open>Reduce\<close> groups the stream into the
  maximal contiguous runs of rows with equal tuple of values at the keys (\<open>spec_runs\<close> for
  the key \<open>values_at keys\<close>), calls the reducer once on each run, in their order, with the
  rows of the run, and yields the outputs one after the other (the first failing call ends
  the stream). With no keys, a non-empty stream is one run, the whole stream.
\<close>

theorem Reduce_runs:
  assumes "have_columns keys rows"
  shows "\<exists>groups. Reduce_groups keys rows = Inr groups
     \<and> spec_runs (values_at keys) rows (map snd groups)
     \<and> Reduce_call reducer keys rows =
         (case collect (map (reducer keys) (map snd groups)) of
            Inl e \<Rightarrow> Inl e
          | Inr outs \<Rightarrow> Inr (concat outs))
     \<and> (keys = [] \<and> rows \<noteq> [] \<longrightarrow> map snd groups = [rows])"
proof -
  from Reduce_groups_total[OF assms] obtain ks where
    m: "map (values_at keys) rows = map Inr ks" and len: "length ks = length rows" and
    G: "Reduce_groups keys rows = Inr (groupby (zip ks rows))"
    by blast
  let ?groups = "groupby (zip ks rows)"
  note F = groups_facts[OF m len]
  have key_hd: "values_at keys (hd g) = Inr k" if "(k, g) \<in> set ?groups" for k g
    using F(2)[OF that] by (cases g) auto
  have runs: "spec_runs (values_at keys) rows (map snd ?groups)"
    unfolding spec_runs_def
  proof (intro conjI ballI)
    show "concat (map snd ?groups) = rows" by (rule F(1))
  next
    fix g assume "g \<in> set (map snd ?groups)"
    then obtain k where kg: "(k, g) \<in> set ?groups" by auto
    show "g \<noteq> []" using F(2)[OF kg] by simp
    fix x assume "x \<in> set g"
    then show "values_at keys x = values_at keys (hd g)"
      using F(2)[OF kg] key_hd[OF kg] by simp
  next
    have "map (\<lambda>g. values_at keys (hd g)) (map snd ?groups) = map (\<lambda>p. Inr (fst p)) ?groups"
      using key_hd by auto
    also have "\<dots> = map Inr (map fst ?groups)" by simp
    finally show "distinct_adj (map (\<lambda>g. values_at keys (hd g)) (map snd ?groups))"
      using F(3) by (simp add: distinct_adj_map_iff inj_on_def del: map_map)
  qed
  have call: "Reduce_call reducer keys rows =
         (case collect (map (reducer keys) (map snd ?groups)) of
            Inl e \<Rightarrow> Inl e
          | Inr outs \<Rightarrow> Inr (concat outs))"
    by (simp add: Reduce_call_def G split_def comp_def)
  have single: "keys = [] \<and> rows \<noteq> [] \<longrightarrow> map snd ?groups = [rows]"
  proof
    assume a: "keys = [] \<and> rows \<noteq> []"
    have "\<forall>p \<in> set (zip ks rows). fst p = []"
    proof
      fix p assume "p \<in> set (zip ks rows)"
      then have "values_at keys (snd p) = Inr (fst p)"
        using zip_keyed[OF m, of "fst p" "snd p"] by simp
      then show "fst p = []" using a by (simp add: values_at_def)
    qed
    moreover have "zip ks rows \<noteq> []" using a len by (cases ks; cases rows) auto
    ultimately have "?groups = [([], map snd (zip ks rows))]"
      by (rule groupby_single[rotated])
    then show "map snd ?groups = [rows]" using len by simp
  qed
  show ?thesis
    by (intro exI[of _ ?groups] conjI) (rule G runs call single)+
qed

lemma sum_list_of_nat_length:
  "sum_list (map (\<lambda>p. (of_nat (length (snd p)) :: rat)) gs) = of_nat (length (concat (map snd gs)))"
  by (induction gs) auto

lemma sorted_keys:
  assumes "sorted_wrt (rows_le keys) rows" and "map (values_at keys) rows = map Inr ks"
  shows "sorted_wrt py_le_list ks"
proof -
  have len: "length ks = length rows" using assms(2) by (metis length_map)
  have "py_le_list (ks ! i) (ks ! j)" if "i < j" "j < length ks" for i j
  proof -
    have "rows_le keys (rows ! i) (rows ! j)"
      using assms(1) that len by (simp add: sorted_wrt_iff_nth_less)
    moreover have "values_at keys (rows ! i) = Inr (ks ! i)" "values_at keys (rows ! j) = Inr (ks ! j)"
      using assms(2) that len by (metis nth_map order_less_trans length_map)+
    ultimately show ?thesis by (simp add: rows_le_def)
  qed
  then show ?thesis by (simp add: sorted_wrt_iff_nth_less)
qed

text \<open>
  C4. On a stream sorted by the keys, \<^verbatim>\<open>Reduce\<close> with \<^verbatim>\<open>Count(column)\<close> yields one row for
  each group, the groups have pairwise different key tuples and these are exactly the key
  tuples of the input rows: one output row for each distinct tuple. The row of a group
  holds the key columns of its first row and, in the count column, the number of rows of
  the group; the counts of all output rows add up to the number of input rows.
\<close>

theorem Reduce_Count_coverage:
  assumes "sorted_by keys rows"
  shows "\<exists>groups out. Reduce_groups keys rows = Inr groups
      \<and> Reduce_call (Count_call column) keys rows = Inr out
      \<and> distinct (map fst groups)
      \<and> Inr ` set (map fst groups) = values_at keys ` set rows
      \<and> out = map (\<lambda>(k, g). (hd g |` set keys)(column \<mapsto> NumV (of_nat (length g)))) groups
      \<and> length out = card (values_at keys ` set rows)
      \<and> sum_list (map (num_at column) out) = of_nat (length rows)"
proof -
  from assms have has: "have_columns keys rows" and srt: "sorted_wrt (rows_le keys) rows"
    by (simp_all add: sorted_by_def have_columns_def)
  from Reduce_groups_total[OF has] obtain ks where
    m: "map (values_at keys) rows = map Inr ks" and len: "length ks = length rows" and
    G: "Reduce_groups keys rows = Inr (groupby (zip ks rows))"
    by blast
  let ?groups = "groupby (zip ks rows)"
  let ?row = "\<lambda>(k, g). (hd g |` set keys)(column \<mapsto> NumV (of_nat (length g)))"
  let ?out = "map ?row ?groups"
  note F = groups_facts[OF m len]
  have "sorted_wrt py_le_list (map fst (zip ks rows))"
    using sorted_keys[OF srt m] len by simp
  then have dist: "distinct (map fst ?groups)"
    by (rule groupby_sorted_distinct[rotated]) (rule py_le_list_antisym)
  have keys_eq: "Inr ` set (map fst ?groups) = values_at keys ` set rows"
  proof -
    have "values_at keys ` set rows = set (map (values_at keys) rows)" by simp
    also have "\<dots> = Inr ` set ks" unfolding m by simp
    finally show ?thesis using F(4) by simp
  qed
  have each: "Count_call column keys (snd p) = Inr [?row p]" if "p \<in> set ?groups" for p
  proof -
    obtain k g where p: "p = (k, g)" by (cases p)
    with that F(2)[of k g] have "g \<noteq> []" by simp
    then show ?thesis using p by (simp add: Count_call_group)
  qed
  have "map (\<lambda>(key, group_items). Count_call column keys group_items) ?groups
        = map Inr (map (\<lambda>p. [?row p]) ?groups)"
    using each by (auto simp: split_def)
  then have call: "Reduce_call (Count_call column) keys rows = Inr ?out"
    unfolding Reduce_call_def G by (simp only: sum.case collect_map_Inr concat_map_singleton)
  have "length ?out = length (map fst ?groups)" by simp
  also have "\<dots> = card (set (map fst ?groups))"
    using dist by (simp only: distinct_card)
  also have "\<dots> = card (Inr ` set (map fst ?groups) :: (error + val list) set)"
    by (simp add: card_image)
  finally have card: "length ?out = card (values_at keys ` set rows)"
    unfolding keys_eq .
  have "map (num_at column) ?out = map (\<lambda>p. of_nat (length (snd p))) ?groups"
    by (auto simp: num_at_def)
  then have sum: "sum_list (map (num_at column) ?out) = of_nat (length rows)"
    by (simp only: sum_list_of_nat_length F(1))
  show ?thesis
    by (intro exI[of _ ?groups] exI[of _ ?out] conjI) (rule G call dist keys_eq refl card sum)+
qed

theorem Reduce_runs_witness:
  "have_columns [''k'', ''v'']
      [[''k'' \<mapsto> NumV 1, ''v'' \<mapsto> StrV ''a'', ''n'' \<mapsto> NumV 1],
       [''k'' \<mapsto> NumV 1, ''v'' \<mapsto> StrV ''a'', ''n'' \<mapsto> NumV 2],
       [''k'' \<mapsto> NumV 1, ''v'' \<mapsto> StrV ''b'', ''n'' \<mapsto> NumV 3]]
   \<and> Reduce_groups [''k'', ''v'']
      [[''k'' \<mapsto> NumV 1, ''v'' \<mapsto> StrV ''a'', ''n'' \<mapsto> NumV 1],
       [''k'' \<mapsto> NumV 1, ''v'' \<mapsto> StrV ''a'', ''n'' \<mapsto> NumV 2],
       [''k'' \<mapsto> NumV 1, ''v'' \<mapsto> StrV ''b'', ''n'' \<mapsto> NumV 3]]
     = Inr [([NumV 1, StrV ''a''],
             [[''k'' \<mapsto> NumV 1, ''v'' \<mapsto> StrV ''a'', ''n'' \<mapsto> NumV 1],
              [''k'' \<mapsto> NumV 1, ''v'' \<mapsto> StrV ''a'', ''n'' \<mapsto> NumV 2]]),
            ([NumV 1, StrV ''b''],
             [[''k'' \<mapsto> NumV 1, ''v'' \<mapsto> StrV ''b'', ''n'' \<mapsto> NumV 3]])]
   \<and> spec_runs (values_at [''k'', ''v''])
      [[''k'' \<mapsto> NumV 1, ''v'' \<mapsto> StrV ''a'', ''n'' \<mapsto> NumV 1],
       [''k'' \<mapsto> NumV 1, ''v'' \<mapsto> StrV ''a'', ''n'' \<mapsto> NumV 2],
       [''k'' \<mapsto> NumV 1, ''v'' \<mapsto> StrV ''b'', ''n'' \<mapsto> NumV 3]]
      [[[''k'' \<mapsto> NumV 1, ''v'' \<mapsto> StrV ''a'', ''n'' \<mapsto> NumV 1],
        [''k'' \<mapsto> NumV 1, ''v'' \<mapsto> StrV ''a'', ''n'' \<mapsto> NumV 2]],
       [[''k'' \<mapsto> NumV 1, ''v'' \<mapsto> StrV ''b'', ''n'' \<mapsto> NumV 3]]]"
proof -
  let ?rows = "[[''k'' \<mapsto> NumV 1, ''v'' \<mapsto> StrV ''a'', ''n'' \<mapsto> NumV 1],
       [''k'' \<mapsto> NumV 1, ''v'' \<mapsto> StrV ''a'', ''n'' \<mapsto> NumV 2],
       [''k'' \<mapsto> NumV 1, ''v'' \<mapsto> StrV ''b'', ''n'' \<mapsto> NumV 3]]"
  let ?groups = "[([NumV 1, StrV ''a''],
             [[''k'' \<mapsto> NumV 1, ''v'' \<mapsto> StrV ''a'', ''n'' \<mapsto> NumV 1],
              [''k'' \<mapsto> NumV 1, ''v'' \<mapsto> StrV ''a'', ''n'' \<mapsto> NumV 2]]),
            ([NumV 1, StrV ''b''],
             [[''k'' \<mapsto> NumV 1, ''v'' \<mapsto> StrV ''b'', ''n'' \<mapsto> NumV 3]])]"
  have h: "have_columns [''k'', ''v''] ?rows"
    by (simp add: have_columns_def)
  have ev: "Reduce_groups [''k'', ''v''] ?rows = Inr ?groups"
    by (simp add: Reduce_groups_def safe_itemgetter_def values_at_def)
  from Reduce_runs[where keys = "[''k'', ''v'']" and rows = ?rows and reducer = "Count_call ''n''", OF h]
  obtain groups where g: "Reduce_groups [''k'', ''v''] ?rows = Inr groups"
    and r: "spec_runs (values_at [''k'', ''v'']) ?rows (map snd groups)"
    by blast
  from g ev have "groups = ?groups" by simp
  with r have runs: "spec_runs (values_at [''k'', ''v'']) ?rows (map snd ?groups)"
    by simp
  show ?thesis
    using runs by (intro conjI) (simp_all only: h ev list.map snd_conv)
qed

theorem Reduce_Count_coverage_witness:
  "sorted_by [''k'']
      [[''k'' \<mapsto> NumV 1, ''v'' \<mapsto> StrV ''a''], [''k'' \<mapsto> NumV 1, ''v'' \<mapsto> StrV ''b''],
       [''k'' \<mapsto> NumV 2, ''v'' \<mapsto> StrV ''c'']]
   \<and> Reduce_call (Count_call ''n'') [''k'']
      [[''k'' \<mapsto> NumV 1, ''v'' \<mapsto> StrV ''a''], [''k'' \<mapsto> NumV 1, ''v'' \<mapsto> StrV ''b''],
       [''k'' \<mapsto> NumV 2, ''v'' \<mapsto> StrV ''c'']]
     = Inr [[''k'' \<mapsto> NumV 1, ''n'' \<mapsto> NumV 2], [''k'' \<mapsto> NumV 2, ''n'' \<mapsto> NumV 1]]
   \<and> sum_list (map (num_at ''n'')
        [[''k'' \<mapsto> NumV 1, ''n'' \<mapsto> NumV 2], [''k'' \<mapsto> NumV 2, ''n'' \<mapsto> NumV 1]]) = 3"
proof -
  let ?rows = "[[''k'' \<mapsto> NumV 1, ''v'' \<mapsto> StrV ''a''], [''k'' \<mapsto> NumV 1, ''v'' \<mapsto> StrV ''b''],
       [''k'' \<mapsto> NumV 2, ''v'' \<mapsto> StrV ''c'']]"
  let ?out = "[[''k'' \<mapsto> NumV 1, ''n'' \<mapsto> NumV 2], [''k'' \<mapsto> NumV 2, ''n'' \<mapsto> NumV 1]]"
  have h: "sorted_by [''k''] ?rows"
    by (simp add: sorted_by_def rows_le_def values_at_def py_le_list_def)
  have ev: "Reduce_groups [''k''] ?rows =
      Inr [([NumV 1], [[''k'' \<mapsto> NumV 1, ''v'' \<mapsto> StrV ''a''], [''k'' \<mapsto> NumV 1, ''v'' \<mapsto> StrV ''b'']]),
            ([NumV 2], [[''k'' \<mapsto> NumV 2, ''v'' \<mapsto> StrV ''c'']])]"
    by (simp add: Reduce_groups_def safe_itemgetter_def values_at_def)
  from Reduce_Count_coverage[where keys = "[''k'']" and rows = ?rows and column = "''n''", OF h]
  obtain groups out where g: "Reduce_groups [''k''] ?rows = Inr groups"
    and c: "Reduce_call (Count_call ''n'') [''k''] ?rows = Inr out"
    and o: "out = map (\<lambda>(k, g). (hd g |` set [''k''])(''n'' \<mapsto> NumV (of_nat (length g)))) groups"
    and s: "sum_list (map (num_at ''n'') out) = of_nat (length ?rows)"
    by blast
  from g ev have gr: "groups =
      [([NumV 1], [[''k'' \<mapsto> NumV 1, ''v'' \<mapsto> StrV ''a''], [''k'' \<mapsto> NumV 1, ''v'' \<mapsto> StrV ''b'']]),
            ([NumV 2], [[''k'' \<mapsto> NumV 2, ''v'' \<mapsto> StrV ''c'']])]"
    by simp
  have out: "out = ?out"
    unfolding o gr by (auto simp: restrict_map_def fun_eq_iff)
  show ?thesis
    using c s unfolding out by (intro conjI) (simp_all only: h, simp_all)
qed

section \<open>Verification: TermFrequency\<close>

lemma set_first_seen [simp]: "set (first_seen xs) = set xs"
  by (induction xs) auto

lemma distinct_first_seen [simp]: "distinct (first_seen xs)"
  by (induction xs) (auto simp: distinct_removeAll)

lemma first_seen_snoc:
  "first_seen (xs @ [x]) = (if x \<in> set xs then first_seen xs else first_seen xs @ [x])"
  by (induction xs) (auto simp: removeAll_id)

lemma counts_incr_map:
  "distinct vs \<Longrightarrow>
   counts_incr (map (\<lambda>v. (v, c v)) vs) w =
     (if w \<in> set vs then map (\<lambda>v. (v, if v = w then c v + 1 else c v)) vs
      else map (\<lambda>v. (v, c v)) vs @ [(w, 1)])"
  by (induction vs) auto

lemma counts_fold:
  "fold (\<lambda>w cs. counts_incr cs w) ws [] = map (\<lambda>v. (v, int (count_list ws v))) (first_seen ws)"
proof (induction ws rule: rev_induct)
  case Nil
  then show ?case by simp
next
  case (snoc w ws)
  have "fold (\<lambda>w cs. counts_incr cs w) (ws @ [w]) []
        = counts_incr (map (\<lambda>v. (v, int (count_list ws v))) (first_seen ws)) w"
    using snoc by simp
  also have "\<dots> = map (\<lambda>v. (v, int (count_list (ws @ [w]) v))) (first_seen (ws @ [w]))"
    by (auto simp: counts_incr_map first_seen_snoc)
  finally show ?case .
qed

lemma collect_map_Inr_on:
  "(\<And>x. x \<in> set xs \<Longrightarrow> f x = Inr (g x)) \<Longrightarrow> collect (map f xs) = Inr (map g xs)"
  by (induction xs) auto

lemma bit_length_mono: "a \<le> b \<Longrightarrow> bit_length a \<le> bit_length b"
proof (induction a arbitrary: b rule: bit_length.induct)
  case (1 n)
  show ?case
  proof (cases "n = 0")
    case True
    then show ?thesis by (simp add: bit_length.simps[of 0])
  next
    case False
    then have b: "b \<noteq> 0" using "1.prems" by simp
    have "n div 2 \<le> b div 2" using "1.prems" by (rule div_le_mono)
    then have "bit_length (n div 2) \<le> bit_length (b div 2)" by (rule "1.IH"[OF False])
    then show ?thesis using False b by (simp add: bit_length.simps[of n] bit_length.simps[of b])
  qed
qed

lemma pow2_pos: "0 < pow2 e"
  by (simp add: pow2_def)

lemma pow2_le: "e \<le> - 52 \<Longrightarrow> pow2 e \<le> 1 / 2 ^ 52"
proof -
  assume e: "e \<le> - 52"
  then have "(52::nat) \<le> nat (- e)" by simp
  then have "(2::rat) ^ 52 \<le> 2 ^ nat (- e)" by (rule power_increasing) simp
  then show ?thesis using e by (simp add: pow2_def field_simps)
qed

lemma round_half_even_close: "\<bar>of_int (round_half_even q) - q\<bar> \<le> 1 / 2"
proof -
  have "of_int \<lfloor>q\<rfloor> \<le> q" "q < of_int \<lfloor>q\<rfloor> + 1" by linarith+
  then show ?thesis
    by (auto simp: round_half_even_def Let_def)
qed

lemma leading_exponent_le: "a \<le> b \<Longrightarrow> leading_exponent a b \<le> 0"
  using bit_length_mono[of a b] by (simp add: leading_exponent_def Let_def)

text \<open>A quotient of at most 1 and its double differ by at most \<open>2 ^ - 53\<close>.\<close>

lemma nearest_double_close:
  assumes "a \<le> b"
  shows "\<bar>nearest_double a b - of_nat a / of_nat b\<bar> \<le> 1 / 2 ^ 53"
proof -
  define e where "e = max (leading_exponent a b - 52) (- 1074)"
  define q :: rat where "q = of_nat a / of_nat b"
  have e: "e \<le> - 52" using leading_exponent_le[OF assms] by (simp add: e_def)
  have p: "0 < pow2 e" by (rule pow2_pos)
  have "nearest_double a b - q = (of_int (round_half_even (q / pow2 e)) - q / pow2 e) * pow2 e"
    using p by (simp add: nearest_double_def e_def q_def Let_def field_simps)
  then have "\<bar>nearest_double a b - q\<bar> = \<bar>of_int (round_half_even (q / pow2 e)) - q / pow2 e\<bar> * pow2 e"
    using p by (simp add: abs_mult)
  also have "\<dots> \<le> 1 / 2 * pow2 e"
    using round_half_even_close p by (simp add: mult_right_mono)
  also have "\<dots> \<le> 1 / 2 * (1 / 2 ^ 52)"
    using pow2_le[OF e] by simp
  finally show ?thesis by (simp add: q_def)
qed

text \<open>The division of a positive int by an int that is not smaller raises nothing.\<close>

lemma int_truediv_fraction:
  assumes "0 < a" and "a \<le> b"
  shows "int_truediv (int a) (int b) = Inr (NumV (nearest_double a b))"
proof -
  define T :: rat where "T = 2 ^ 1024 - 2 ^ 970"
  have T: "1 < T" unfolding T_def by simp
  have q: "\<bar>of_int (int a) / of_int (int b) :: rat\<bar> \<le> 1" using assms by simp
  have no: "(T \<le> \<bar>of_int (int a) / of_int (int b) :: rat\<bar>) = False"
  proof -
    have "\<not> T \<le> \<bar>of_int (int a) / of_int (int b) :: rat\<bar>" using T q by linarith
    then show ?thesis by (rule eq_False[THEN iffD2])
  qed
  have nz: "(int b = 0) = False" "(int a = 0) = False" using assms by simp_all
  have sg: "sgn (int a) * sgn (int b) = 1" using assms by simp
  have n: "nat \<bar>int a\<bar> = a" "nat \<bar>int b\<bar> = b" by simp_all
  show ?thesis
    unfolding int_truediv_def T_def[symmetric]
    by (simp only: no nz sg n if_False of_int_1 mult_1)
qed

lemma pow2_powi: "pow2 e = 2 powi e"
  by (simp add: pow2_def power_int_def field_simps)

lemma pow2_add: "pow2 (x + y) = pow2 x * pow2 y"
  by (simp add: pow2_powi power_int_add)

lemma pow2_of_nat: "pow2 (int n) = 2 ^ n"
  by (simp add: pow2_def)

lemma bit_length_bounds:
  "0 < n \<Longrightarrow> 2 ^ (bit_length n - 1) \<le> n \<and> n < 2 ^ bit_length n"
proof (induction n rule: bit_length.induct)
  case (1 n)
  then have n: "n \<noteq> 0" by simp
  have bl: "bit_length n = Suc (bit_length (n div 2))"
    using n by (simp add: bit_length.simps[of n])
  show ?case
  proof (cases "n div 2 = 0")
    case True
    then have "bit_length n = Suc 0" by (simp add: bl bit_length.simps[of 0])
    moreover have "n = 1" using True n by (simp add: div_eq_0_iff)
    ultimately show ?thesis by simp
  next
    case False
    then have pos: "0 < n div 2" by simp
    from "1.IH"[OF n pos] have lo: "2 ^ (bit_length (n div 2) - 1) \<le> n div 2"
      and hi: "n div 2 < 2 ^ bit_length (n div 2)" by simp_all
    have "bit_length (n div 2) \<noteq> 0" using False by (simp add: bit_length.simps[of "n div 2"])
    then obtain k where k: "bit_length (n div 2) = Suc k" by (cases "bit_length (n div 2)") auto
    have "2 ^ Suc k \<le> 2 * (n div 2)" using lo k by simp
    also have "\<dots> \<le> n" by simp
    finally have l: "2 ^ (bit_length n - 1) \<le> n" by (simp add: bl k)
    have "n < 2 * (n div 2) + 2" by linarith
    also have "\<dots> \<le> 2 * 2 ^ bit_length (n div 2)" using hi by simp
    finally have h: "n < 2 ^ bit_length n" by (simp add: bl)
    show ?thesis using l h by simp
  qed
qed

text \<open>The leading exponent of a quotient is the exponent of its binade.\<close>

lemma leading_exponent_bounds:
  assumes "0 < a" and "0 < b"
  shows "pow2 (leading_exponent a b) \<le> of_nat a / of_nat b"
    and "of_nat a / of_nat b < pow2 (leading_exponent a b + 1)"
proof -
  define la where "la = bit_length a"
  define lb where "lb = bit_length b"
  define d where "d = int la - int lb"
  have A: "2 ^ (la - 1) \<le> a" "a < 2 ^ la" and B: "2 ^ (lb - 1) \<le> b" "b < 2 ^ lb"
    using bit_length_bounds[OF assms(1)] bit_length_bounds[OF assms(2)] by (simp_all add: la_def lb_def)
  have la: "0 < la" and lb: "0 < lb"
    using assms by (simp_all add: la_def lb_def bit_length.simps[of a] bit_length.simps[of b])
  have bpos: "(0::rat) < of_nat b" using assms by simp
  have a_hi: "(of_nat a :: rat) < pow2 (int la)"
    using A(2) unfolding pow2_of_nat by (metis of_nat_less_iff of_nat_numeral of_nat_power)
  have a_lo: "pow2 (int la - 1) \<le> (of_nat a :: rat)"
  proof -
    have "int la - 1 = int (la - 1)" using la by simp
    then show ?thesis
      using A(1) unfolding pow2_of_nat by (metis of_nat_le_iff of_nat_numeral of_nat_power pow2_of_nat)
  qed
  have b_hi: "(of_nat b :: rat) < pow2 (int lb)"
    using B(2) unfolding pow2_of_nat by (metis of_nat_less_iff of_nat_numeral of_nat_power)
  have b_lo: "pow2 (int lb - 1) \<le> (of_nat b :: rat)"
  proof -
    have "int lb - 1 = int (lb - 1)" using lb by simp
    then show ?thesis
      using B(1) unfolding pow2_of_nat by (metis of_nat_le_iff of_nat_numeral of_nat_power pow2_of_nat)
  qed
  have up: "(of_nat a :: rat) < pow2 (d + 1) * of_nat b"
  proof -
    have "pow2 (int la) = pow2 (d + 1) * pow2 (int lb - 1)"
      by (simp add: d_def flip: pow2_add)
    also have "\<dots> \<le> pow2 (d + 1) * of_nat b"
      using b_lo pow2_pos[of "d + 1"] by (simp add: mult_left_mono)
    finally show ?thesis using a_hi by simp
  qed
  have low: "pow2 (d - 1) * of_nat b < (of_nat a :: rat)"
  proof -
    have "pow2 (d - 1) * of_nat b < pow2 (d - 1) * pow2 (int lb)"
      using b_hi pow2_pos[of "d - 1"] by (simp add: mult_strict_left_mono)
    also have "\<dots> = pow2 (int la - 1)"
      by (simp add: d_def flip: pow2_add)
    finally show ?thesis using a_lo by simp
  qed
  have L: "leading_exponent a b = (if pow2 d * of_nat b \<le> of_nat a then d else d - 1)"
    by (simp add: leading_exponent_def d_def la_def lb_def Let_def)
  show "pow2 (leading_exponent a b) \<le> of_nat a / of_nat b"
    using low bpos by (auto simp: L pos_le_divide_eq less_imp_le)
  show "of_nat a / of_nat b < pow2 (leading_exponent a b + 1)"
    using up bpos by (auto simp: L pos_divide_less_eq not_le)
qed

lemma round_half_even_nearest:
  "\<bar>of_int (round_half_even q) - q\<bar> \<le> \<bar>of_int m - q\<bar>"
proof -
  have fl: "of_int \<lfloor>q\<rfloor> \<le> q" "q < of_int \<lfloor>q\<rfloor> + 1" by linarith+
  consider "m \<le> \<lfloor>q\<rfloor>" | "\<lfloor>q\<rfloor> + 1 \<le> m" by linarith
  then show ?thesis
  proof cases
    case 1
    then have "(of_int m :: rat) \<le> of_int \<lfloor>q\<rfloor>" by simp
    then show ?thesis using fl
      by (auto simp: round_half_even_def Let_def)
  next
    case 2
    then have "(of_int \<lfloor>q\<rfloor> :: rat) + 1 \<le> of_int m"
      by (metis of_int_1 of_int_add of_int_le_iff)
    then show ?thesis using fl
      by (auto simp: round_half_even_def Let_def)
  qed
qed

text \<open>
  No multiple of the unit \<open>2 ^ e\<close> of the binade is nearer to the quotient than its double.
\<close>

lemma nearest_double_nearest:
  "\<bar>nearest_double a b - of_nat a / of_nat b\<bar>
     \<le> \<bar>of_int m * pow2 (max (leading_exponent a b - 52) (- 1074)) - of_nat a / of_nat b\<bar>"
proof -
  define e where "e = max (leading_exponent a b - 52) (- 1074)"
  define q :: rat where "q = of_nat a / of_nat b"
  have p: "0 < pow2 e" by (rule pow2_pos)
  have 1: "nearest_double a b - q = (of_int (round_half_even (q / pow2 e)) - q / pow2 e) * pow2 e"
    using p by (simp add: nearest_double_def e_def q_def Let_def field_simps)
  have 2: "of_int m * pow2 e - q = (of_int m - q / pow2 e) * pow2 e"
    using p by (simp add: field_simps)
  have "\<bar>nearest_double a b - q\<bar> = \<bar>of_int (round_half_even (q / pow2 e)) - q / pow2 e\<bar> * pow2 e"
    using p by (simp add: 1 abs_mult)
  also have "\<dots> \<le> \<bar>of_int m - q / pow2 e\<bar> * pow2 e"
    using round_half_even_nearest p by (simp add: mult_right_mono)
  also have "\<dots> = \<bar>of_int m * pow2 e - q\<bar>"
    using p by (simp add: 2 abs_mult)
  finally show ?thesis by (simp add: q_def e_def)
qed

text \<open>Python gives \<^verbatim>\<open>(2/3).as_integer_ratio() == (6004799503160661, 9007199254740992)\<close>, and so on.\<close>

lemma nearest_double_examples:
  "nearest_double 2 3 = 6004799503160661 / 9007199254740992"
  "nearest_double 1 3 = 6004799503160661 / 18014398509481984"
  "nearest_double 1 10 = 3602879701896397 / 36028797018963968"
  "nearest_double 5 7 = 6433713753386423 / 9007199254740992"
  "nearest_double 3 4 = 3 / 4"
  "nearest_double 1 1 = 1"
  by code_simp+

lemma length_column_values_le: "length (column_values column rows) \<le> length rows"
  by (induction rows) (auto simp: column_values_def List.map_filter_simps split: option.splits)

lemma collect_map_Inr_comp: "collect (map (\<lambda>x. Inr (f x)) xs) = Inr (map f xs)"
  by (induction xs) auto

lemma column_values_Cons:
  "r column = Some w \<Longrightarrow> column_values column (r # rows) = w # column_values column rows"
  by (simp add: column_values_def List.map_filter_simps)

lemma TermFrequency_loop_run:
  assumes "have_columns [wc] rows" and "return_row st = Map.empty \<longrightarrow> gk = []"
  shows "TermFrequency_loop wc gk st rows =
           Inr (TF_State (fold (\<lambda>w cs. counts_incr cs w) (column_values wc rows) (counts st))
                  (counter st + int (length rows)) (return_row st))"
  using assms
proof (induction rows arbitrary: st)
  case Nil
  then show ?case by (simp add: column_values_def List.map_filter_simps)
next
  case (Cons r rows)
  from Cons.prems(1) obtain w where w: "r wc = Some w" and rest: "have_columns [wc] rows"
    by (auto simp: have_columns_def)
  have keep: "(if return_row st = Map.empty then select_keys gk r else Inr (return_row st)) = Inr (return_row st)"
    using Cons.prems(2) by (auto simp: select_keys_def)
  let ?st = "TF_State (counts_incr (counts st) w) (counter st + 1) (return_row st)"
  have "TermFrequency_loop wc gk st (r # rows) = TermFrequency_loop wc gk ?st rows"
    by (simp add: keep w)
  also have "\<dots> = Inr (TF_State (fold (\<lambda>w cs. counts_incr cs w) (column_values wc rows) (counts ?st))
                  (counter ?st + int (length rows)) (return_row ?st))"
    by (rule Cons.IH[OF rest]) (use Cons.prems(2) in simp)
  finally show ?case
    by (simp add: column_values_Cons[where r = r and column = wc and w = w, OF w] add.assoc)
qed

lemma TermFrequency_call_eq:
  assumes ne: "rows \<noteq> []" and gk: "set gk \<subseteq> dom (hd rows)" and wc: "have_columns [wc] rows"
  shows "TermFrequency_call wc rc gk rows =
     Inr (map (\<lambda>v. (hd rows |` set gk)(wc \<mapsto> v,
                 rc \<mapsto> NumV (nearest_double (count_list (column_values wc rows) v) (length rows))))
            (first_seen (column_values wc rows)))"
proof -
  obtain r rs where rows: "rows = r # rs" using ne by (cases rows) auto
  from wc rows obtain w where w: "r wc = Some w" and rest: "have_columns [wc] rs"
    by (auto simp: have_columns_def)
  have sel: "select_keys gk r = Inr (r |` set gk)"
    using gk rows by (auto simp: select_keys_def find_None_iff split: option.splits)
  let ?st = "TF_State (counts_incr [] w) 1 (r |` set gk)"
  have inv: "return_row ?st = Map.empty \<longrightarrow> gk = []"
  proof
    assume e: "return_row ?st = Map.empty"
    have "k \<notin> set gk" for k
    proof
      assume k: "k \<in> set gk"
      then obtain v where "r k = Some v" using gk rows by auto
      then have "(r |` set gk) k = Some v" using k by simp
      then show False using e by simp
    qed
    then show "gk = []" by (cases gk) auto
  qed
  have "TermFrequency_loop wc gk (TF_State [] 0 Map.empty) rows = TermFrequency_loop wc gk ?st rs"
    by (simp add: rows sel w)
  also have "\<dots> = Inr (TF_State (fold (\<lambda>w cs. counts_incr cs w) (column_values wc rs) (counts ?st))
                  (counter ?st + int (length rs)) (return_row ?st))"
    by (rule TermFrequency_loop_run[OF rest inv])
  also have "fold (\<lambda>w cs. counts_incr cs w) (column_values wc rs) (counts ?st)
             = fold (\<lambda>w cs. counts_incr cs w) (column_values wc rows) []"
    by (simp add: rows column_values_Cons[where r = r and column = wc and w = w, OF w])
  also have "counter ?st + int (length rs) = int (length rows)"
    by (simp add: rows)
  finally have loop: "TermFrequency_loop wc gk (TF_State [] 0 Map.empty) rows
      = Inr (TF_State (map (\<lambda>v. (v, int (count_list (column_values wc rows) v)))
                         (first_seen (column_values wc rows)))
               (int (length rows)) (hd rows |` set gk))"
    by (simp add: counts_fold rows)
  let ?cv = "column_values wc rows"
  have div: "int_truediv (int (count_list ?cv v)) (int (length rows))
             = Inr (NumV (nearest_double (count_list ?cv v) (length rows)))"
    if "v \<in> set (first_seen ?cv)" for v
  proof (rule int_truediv_fraction)
    from that have "v \<in> set ?cv" by simp
    then have "count_list ?cv v \<noteq> 0" by (simp only: count_list_0_iff not_not)
    then show "0 < count_list ?cv v" by simp
    have "count_list ?cv v \<le> length ?cv" by (rule count_le_length)
    also have "\<dots> \<le> length rows" by (rule length_column_values_le)
    finally show "count_list ?cv v \<le> length rows" .
  qed
  have "collect (map (\<lambda>v. case int_truediv (int (count_list ?cv v)) (int (length rows)) of
                 Inl e \<Rightarrow> Inl e
               | Inr q \<Rightarrow> Inr ((hd rows |` set gk)(wc \<mapsto> v, rc \<mapsto> q)))
           (first_seen ?cv))
        = Inr (map (\<lambda>v. (hd rows |` set gk)(wc \<mapsto> v,
                 rc \<mapsto> NumV (nearest_double (count_list ?cv v) (length rows))))
            (first_seen ?cv))"
    by (rule collect_map_Inr_on) (simp add: div)
  then show ?thesis
    unfolding TermFrequency_call_def loop
    by (simp add: comp_def cong: sum.case_cong)
qed

lemma spec_tf_row_update:
  assumes "set gk \<subseteq> dom first" and "rc \<noteq> wc" and "rc \<notin> set gk" and "cnt \<le> n"
  shows "spec_tf_row gk wc rc first v cnt n
           ((first |` set gk)(wc \<mapsto> v, rc \<mapsto> NumV (nearest_double cnt n)))"
proof -
  have "dom ((first |` set gk)(wc \<mapsto> v, rc \<mapsto> NumV (nearest_double cnt n)))
        = set gk \<union> {wc, rc}"
    using assms(1) by auto
  then show ?thesis
    unfolding spec_tf_row_def using assms(2,3) nearest_double_close[OF assms(4)]
    by (auto simp: num_at_def)
qed

text \<open>
  C6 (as amended). For a non-empty group whose rows have the words column and whose first
  row has the group-key columns, and a result column that is neither the words column nor
  a group-key column, \<^verbatim>\<open>TermFrequency\<close> yields exactly one row for each distinct value of
  the words column, in the order in which the values are first seen; the row of a value
  holds the group-key columns of the first row, the value in the words column, and in the
  result column the float that Python's division gives for the number of rows with that
  value and the number of rows of the group (the double nearest to the quotient, which
  differs from it by \<open>2 ^ - 53\<close> at most), and nothing else.
\<close>

theorem TermFrequency_rows:
  assumes "rows \<noteq> []" and "set group_key \<subseteq> dom (hd rows)"
    and "have_columns [words_column] rows"
    and "result_column \<noteq> words_column" and "result_column \<notin> set group_key"
  shows "\<exists>out. TermFrequency_call words_column result_column group_key rows = Inr out
       \<and> list_all2
            (\<lambda>v r. spec_tf_row group_key words_column result_column (hd rows) v
                     (count_list (column_values words_column rows) v) (length rows) r)
            (first_seen (column_values words_column rows)) out"
proof -
  let ?cv = "column_values words_column rows"
  let ?row = "\<lambda>v. (hd rows |` set group_key)(words_column \<mapsto> v,
                 result_column \<mapsto> NumV (nearest_double (count_list ?cv v) (length rows)))"
  let ?vs = "first_seen ?cv"
  have call: "TermFrequency_call words_column result_column group_key rows = Inr (map ?row ?vs)"
    by (rule TermFrequency_call_eq[OF assms(1-3)])
  have le: "count_list ?cv v \<le> length rows" for v
    using count_le_length[of ?cv v] length_column_values_le[of words_column rows] by simp
  have "list_all2
            (\<lambda>v r. spec_tf_row group_key words_column result_column (hd rows) v
                     (count_list ?cv v) (length rows) r)
            ?vs (map ?row ?vs)"
    unfolding list_all2_map2
    by (rule list_all2_same[THEN iffD2]) (auto intro!: spec_tf_row_update[OF assms(2,4,5) le])
  with call show ?thesis by blast
qed

theorem TermFrequency_rows_witness:
  "[[''doc'' \<mapsto> NumV 1, ''w'' \<mapsto> StrV ''a''], [''doc'' \<mapsto> NumV 1, ''w'' \<mapsto> StrV ''b''],
    [''doc'' \<mapsto> NumV 1, ''w'' \<mapsto> StrV ''a'']] \<noteq> []
   \<and> set [''doc''] \<subseteq> dom (hd [[''doc'' \<mapsto> NumV 1, ''w'' \<mapsto> StrV ''a''],
        [''doc'' \<mapsto> NumV 1, ''w'' \<mapsto> StrV ''b''], [''doc'' \<mapsto> NumV 1, ''w'' \<mapsto> StrV ''a'']])
   \<and> have_columns [''w''] [[''doc'' \<mapsto> NumV 1, ''w'' \<mapsto> StrV ''a''],
        [''doc'' \<mapsto> NumV 1, ''w'' \<mapsto> StrV ''b''], [''doc'' \<mapsto> NumV 1, ''w'' \<mapsto> StrV ''a'']]
   \<and> ''tf'' \<noteq> ''w'' \<and> ''tf'' \<notin> set [''doc'']
   \<and> first_seen (column_values ''w'' [[''doc'' \<mapsto> NumV 1, ''w'' \<mapsto> StrV ''a''],
        [''doc'' \<mapsto> NumV 1, ''w'' \<mapsto> StrV ''b''], [''doc'' \<mapsto> NumV 1, ''w'' \<mapsto> StrV ''a'']])
       = [StrV ''a'', StrV ''b'']
   \<and> TermFrequency_call ''w'' ''tf'' [''doc'']
          [[''doc'' \<mapsto> NumV 1, ''w'' \<mapsto> StrV ''a''], [''doc'' \<mapsto> NumV 1, ''w'' \<mapsto> StrV ''b''],
           [''doc'' \<mapsto> NumV 1, ''w'' \<mapsto> StrV ''a'']]
       = Inr [[''doc'' \<mapsto> NumV 1, ''w'' \<mapsto> StrV ''a'', ''tf'' \<mapsto> NumV (6004799503160661 / 9007199254740992)],
              [''doc'' \<mapsto> NumV 1, ''w'' \<mapsto> StrV ''b'', ''tf'' \<mapsto> NumV (6004799503160661 / 18014398509481984)]]
   \<and> (\<exists>out. TermFrequency_call ''w'' ''tf'' [''doc'']
          [[''doc'' \<mapsto> NumV 1, ''w'' \<mapsto> StrV ''a''], [''doc'' \<mapsto> NumV 1, ''w'' \<mapsto> StrV ''b''],
           [''doc'' \<mapsto> NumV 1, ''w'' \<mapsto> StrV ''a'']] = Inr out
        \<and> list_all2
            (\<lambda>v r. spec_tf_row [''doc''] ''w'' ''tf''
                     (hd [[''doc'' \<mapsto> NumV 1, ''w'' \<mapsto> StrV ''a''],
                          [''doc'' \<mapsto> NumV 1, ''w'' \<mapsto> StrV ''b''],
                          [''doc'' \<mapsto> NumV 1, ''w'' \<mapsto> StrV ''a'']]) v
                     (count_list (column_values ''w'' [[''doc'' \<mapsto> NumV 1, ''w'' \<mapsto> StrV ''a''],
                          [''doc'' \<mapsto> NumV 1, ''w'' \<mapsto> StrV ''b''],
                          [''doc'' \<mapsto> NumV 1, ''w'' \<mapsto> StrV ''a'']]) v)
                     (length [[''doc'' \<mapsto> NumV 1, ''w'' \<mapsto> StrV ''a''],
                          [''doc'' \<mapsto> NumV 1, ''w'' \<mapsto> StrV ''b''],
                          [''doc'' \<mapsto> NumV 1, ''w'' \<mapsto> StrV ''a'']]) r)
            (first_seen (column_values ''w'' [[''doc'' \<mapsto> NumV 1, ''w'' \<mapsto> StrV ''a''],
                          [''doc'' \<mapsto> NumV 1, ''w'' \<mapsto> StrV ''b''],
                          [''doc'' \<mapsto> NumV 1, ''w'' \<mapsto> StrV ''a'']])) out)"
proof -
  let ?rows = "[[''doc'' \<mapsto> NumV 1, ''w'' \<mapsto> StrV ''a''], [''doc'' \<mapsto> NumV 1, ''w'' \<mapsto> StrV ''b''],
    [''doc'' \<mapsto> NumV 1, ''w'' \<mapsto> StrV ''a'']]"
  have h1: "?rows \<noteq> []" by simp
  have h2: "set [''doc''] \<subseteq> dom (hd ?rows)" by simp
  have h3: "have_columns [''w''] ?rows" by (simp add: have_columns_def)
  have h4: "''tf'' \<noteq> ''w''" by simp
  have h5: "''tf'' \<notin> set [''doc'']" by simp
  have fs: "first_seen (column_values ''w'' ?rows) = [StrV ''a'', StrV ''b'']"
    by (simp add: column_values_def List.map_filter_simps)
  have ev: "TermFrequency_call ''w'' ''tf'' [''doc''] ?rows
       = Inr [[''doc'' \<mapsto> NumV 1, ''w'' \<mapsto> StrV ''a'', ''tf'' \<mapsto> NumV (6004799503160661 / 9007199254740992)],
              [''doc'' \<mapsto> NumV 1, ''w'' \<mapsto> StrV ''b'', ''tf'' \<mapsto> NumV (6004799503160661 / 18014398509481984)]]"
  proof -
    have "int_truediv (int 2) (int 3) = Inr (NumV (nearest_double 2 3))"
      by (rule int_truediv_fraction) simp_all
    then have d2: "int_truediv 2 3 = Inr (NumV (6004799503160661 / 9007199254740992))"
      by (simp only: nearest_double_examples of_nat_numeral)
    have "int_truediv (int 1) (int 3) = Inr (NumV (nearest_double 1 3))"
      by (rule int_truediv_fraction) simp_all
    then have d1: "int_truediv 1 3 = Inr (NumV (6004799503160661 / 18014398509481984))"
      by (simp only: nearest_double_examples of_nat_numeral of_nat_1)
    show ?thesis
      by (auto simp: TermFrequency_call_def select_keys_def restrict_map_def fun_eq_iff d1 d2)
  qed
  note c = TermFrequency_rows[where rows = ?rows and group_key = "[''doc'']"
        and words_column = "''w''" and result_column = "''tf''", OF h1 h2 h3 h4 h5]
  show ?thesis
    by (intro conjI) (rule h1 h2 h3 h4 h5 fs ev c)+
qed

text \<open>
  The claim as it was stated, for every pair of column names, fails when the result column
  is the words column: \<^verbatim>\<open>TermFrequency('w', 'w')\<close> on the group \<^verbatim>\<open>[{w: "a"}]\<close> yields the
  row \<^verbatim>\<open>{w: 1.0}\<close>, whose words column is not the value \<^verbatim>\<open>"a"\<close>.
\<close>

theorem TermFrequency_same_column_counterexample:
  "TermFrequency_call ''w'' ''w'' [] [[''w'' \<mapsto> StrV ''a'']] = Inr [[''w'' \<mapsto> NumV 1]]
   \<and> \<not> spec_tf_row [] ''w'' ''w'' [''w'' \<mapsto> StrV ''a''] (StrV ''a'') 1 1 [''w'' \<mapsto> NumV 1]"
proof -
  have "int_truediv (int 1) (int 1) = Inr (NumV (nearest_double 1 1))"
    by (rule int_truediv_fraction) simp_all
  then have d: "int_truediv 1 1 = Inr (NumV 1)"
    by (simp only: nearest_double_examples of_nat_1)
  show ?thesis
    by (simp add: TermFrequency_call_def select_keys_def spec_tf_row_def d)
qed

section \<open>Verification: TopN with no capacity\<close>

text \<open>
  C10. On a non-empty group whose first row has the column, \<^verbatim>\<open>TopN(column, n)\<close> with
  \<open>n = 0\<close> (or a negative \<open>n\<close>) raises \<^verbatim>\<open>IndexError\<close> at the first row: the heap is empty, its
  length is not below \<open>n\<close>, and the comparison reads \<^verbatim>\<open>sorted_lst[0]\<close>. No row is yielded.
\<close>

theorem TopN_zero_raises:
  assumes "row column \<noteq> None" and "n \<le> 0"
  shows "TopN_call column n group_key (row # rest) = Inl IndexError"
  using assms by (auto simp: TopN_call_def Let_def)

theorem TopN_zero_raises_witness:
  "[''x'' \<mapsto> NumV 5] ''x'' \<noteq> None \<and> (0::int) \<le> 0
   \<and> TopN_call ''x'' 0 [] [[''x'' \<mapsto> NumV 5], [''x'' \<mapsto> NumV 3]] = Inl IndexError"
proof -
  have h1: "[''x'' \<mapsto> NumV 5] ''x'' \<noteq> None" by simp
  have h2: "(0::int) \<le> 0" by simp
  show ?thesis
    using h1 h2 TopN_zero_raises[where row = "[''x'' \<mapsto> NumV 5]" and column = "''x''" and n = 0
      and group_key = "[]" and rest = "[[''x'' \<mapsto> NumV 3]]", OF h1 h2] by (intro conjI)
qed

section \<open>Verification: TopN\<close>

lemma py_lt_less: "comparable a b \<Longrightarrow> py_lt a b = Inr (a < b)"
  by (cases a; cases b) (auto simp: comparable_def less_val_def less_eq_val_def)

lemma comparable_sym: "comparable a b \<Longrightarrow> comparable b a"
  by (cases a; cases b) (auto simp: comparable_def)

lemma entry_lt_key:
  "comparable (fst x) (fst y) \<Longrightarrow> fst (snd x) \<noteq> fst (snd y) \<Longrightarrow> entry_lt x y = Inr (key x < key y)"
  by (cases x; cases y) (auto simp: key_def less_prod_def py_lt_less)

lemma length_add_mset: "mset h' = add_mset x (mset h) \<Longrightarrow> length h' = Suc (length h)"
proof -
  assume "mset h' = add_mset x (mset h)"
  then have "size (mset h') = size (add_mset x (mset h))" by simp
  then show ?thesis by simp
qed

lemma heappush_sorted:
  assumes "\<forall>y \<in> set h. comparable (fst x) (fst y) \<and> fst (snd x) \<noteq> fst (snd y)"
  shows "\<exists>h'. heappush h x = Inr h' \<and> mset h' = add_mset x (mset h)
            \<and> (sorted (map key h) \<longrightarrow> sorted (map key h'))"
  using assms
proof (induction h)
  case Nil
  then show ?case by simp
next
  case (Cons y h)
  have lt: "entry_lt x y = Inr (key x < key y)"
    using Cons.prems by (simp add: entry_lt_key)
  show ?case
  proof (cases "key x < key y")
    case True
    then show ?thesis using lt by auto
  next
    case False
    from Cons.IH Cons.prems obtain h' where h': "heappush h x = Inr h'"
      "mset h' = add_mset x (mset h)" "sorted (map key h) \<longrightarrow> sorted (map key h')"
      by auto
    have "set h' = insert x (set h)"
      using h'(2) by (metis set_mset_add_mset_insert set_mset_mset)
    then have "sorted (map key (y # h)) \<longrightarrow> sorted (map key (y # h'))"
      using h'(3) False by auto
    then show ?thesis using lt False h' by auto
  qed
qed

lemma entry_at_simps [simp]:
  "fst (snd (entry_at column rows j)) = - int j"
  "snd (snd (entry_at column rows j)) = rows ! j"
  by (simp_all add: entry_at_def)

lemma entry_at_inj: "entry_at column rows i = entry_at column rows j \<longleftrightarrow> i = j"
  by (auto simp: entry_at_def)

lemma key_entry_at_inj: "key (entry_at column rows i) = key (entry_at column rows j) \<longleftrightarrow> i = j"
  by (auto simp: entry_at_def key_def)

lemma inj_entry_at: "inj_on (entry_at column rows) A"
  by (simp add: inj_on_def entry_at_inj)

lemma column_comparable_nth:
  assumes "column_comparable column rows" and "i < length rows" and "j < length rows"
  shows "(rows ! i) column = Some (fst (entry_at column rows i))"
    and "comparable (fst (entry_at column rows i)) (fst (entry_at column rows j))"
proof -
  have "case ((rows ! i) column, (rows ! j) column) of (Some a, Some b) \<Rightarrow> comparable a b | _ \<Rightarrow> False"
    using assms by (simp add: column_comparable_def)
  then show "(rows ! i) column = Some (fst (entry_at column rows i))"
    and "comparable (fst (entry_at column rows i)) (fst (entry_at column rows j))"
    by (auto simp: entry_at_def split: option.splits)
qed

lemma TopN_step:
  assumes n: "1 \<le> n" and cmp: "column_comparable column rows" and m: "m < length rows"
    and inv: "topn_inv column n rows m h"
  shows "\<exists>h'. TopN_loop column n h (int m) (rows ! m # rest) = TopN_loop column n h' (int m + 1) rest
            \<and> topn_inv column n rows (Suc m) h'"
proof -
  let ?e = "entry_at column rows"
  let ?x = "?e m"
  from inv have srt: "sorted (map key h)" and dist: "distinct h" and sub: "set h \<subseteq> ?e ` {..<m}"
    and len: "length h = min (nat n) m"
    and dom: "\<And>x j. x \<in> set h \<Longrightarrow> j < m \<Longrightarrow> ?e j \<notin> set h \<Longrightarrow> key (?e j) < key x"
    by (auto simp: topn_inv_def)
  have col: "(rows ! m) column = Some (fst ?x)"
    using column_comparable_nth(1)[OF cmp m m] .
  have x_eq: "(fst ?x, - int m, rows ! m) = ?x"
    by (simp add: entry_at_def)
  have x_new: "?x \<notin> set h"
    using sub by (auto simp: entry_at_inj)
  have cmp_h: "comparable (fst ?x) (fst y) \<and> fst (snd ?x) \<noteq> fst (snd y)" if "y \<in> set h" for y
  proof -
    from that sub obtain j where j: "j < m" "y = ?e j" by auto
    then show ?thesis
      using column_comparable_nth(2)[OF cmp m, of j] m by simp
  qed
  show ?thesis
  proof (cases "int (length h) < n")
    case True
    then have lenm: "length h = m" using len by auto
    from heappush_sorted[of h ?x] cmp_h obtain h' where h': "heappush h ?x = Inr h'"
      "mset h' = add_mset ?x (mset h)" "sorted (map key h')"
      using srt by blast
    have set_h': "set h' = insert ?x (set h)"
      using h'(2) by (metis set_mset_add_mset_insert set_mset_mset)
    have "card (set h) = card (?e ` {..<m})"
      using dist lenm by (simp add: distinct_card card_image inj_entry_at)
    then have all: "set h = ?e ` {..<m}"
      using sub by (simp add: card_subset_eq)
    have "distinct h'"
      using h'(2) dist x_new by (metis distinct.simps(2) mset.simps(2) mset_eq_imp_distinct_iff)
    moreover have "set h' \<subseteq> ?e ` {..<Suc m}"
      using set_h' sub by (auto simp: lessThan_Suc)
    moreover have "length h' = min (nat n) (Suc m)"
      using length_add_mset[OF h'(2)] True lenm by simp
    moreover have "\<forall>x \<in> set h'. \<forall>j < Suc m. ?e j \<notin> set h' \<longrightarrow> key (?e j) < key x"
      using set_h' all by (auto simp: less_Suc_eq)
    ultimately have "topn_inv column n rows (Suc m) h'"
      using h'(3) by (simp add: topn_inv_def)
    moreover have "TopN_loop column n h (int m) (rows ! m # rest) = TopN_loop column n h' (int m + 1) rest"
      using True col h'(1) by (simp add: x_eq)
    ultimately show ?thesis by blast
  next
    case False
    with n len have lenn: "length h = nat n" and mn: "nat n \<le> m" and ne: "h \<noteq> []"
      by auto
    then obtain least tl where h: "h = least # tl" by (cases h) auto
    from sub h obtain l where l: "l < m" "least = ?e l" by auto
    have cmp_l: "comparable (fst least) (fst ?x)"
      using cmp_h[of least] h by (simp add: comparable_sym)
    have gt: "py_gt (fst ?x) (fst least) = Inr (fst least < fst ?x)"
      using cmp_l by (simp add: py_gt_def py_lt_less)
    have least_min: "key least \<le> key y" if "y \<in> set h" for y
      using srt h that by auto
    have least_lt: "key least < key y" if "y \<in> set tl" for y
    proof -
      from that h dist have "y \<noteq> least" by auto
      moreover from that sub h obtain j where "j < m" "y = ?e j" by auto
      ultimately have "key y \<noteq> key least" using l by (auto simp: key_entry_at_inj)
      then show ?thesis using least_min[of y] that h by auto
    qed
    show ?thesis
    proof (cases "fst least < fst ?x")
      case True
      have cmp_tl: "\<forall>y \<in> set tl. comparable (fst ?x) (fst y) \<and> fst (snd ?x) \<noteq> fst (snd y)"
        using cmp_h h by auto
      from heappush_sorted[OF cmp_tl] srt h obtain h' where h': "heappush tl ?x = Inr h'"
        "mset h' = add_mset ?x (mset tl)" "sorted (map key h')"
        by auto
      have set_h': "set h' = insert ?x (set tl)"
        using h'(2) by (metis set_mset_add_mset_insert set_mset_mset)
      have "distinct h'"
        using h'(2) dist x_new h by (metis distinct.simps(2) list.set_intros(2) mset.simps(2) mset_eq_imp_distinct_iff)
      moreover have "set h' \<subseteq> ?e ` {..<Suc m}"
        using set_h' sub h by (auto simp: lessThan_Suc)
      moreover have "length h' = min (nat n) (Suc m)"
      proof -
        have "length h' = Suc (length tl)" using h'(2) by (rule length_add_mset)
        then show ?thesis using lenn mn h by simp
      qed
      moreover have "\<forall>x \<in> set h'. \<forall>j < Suc m. ?e j \<notin> set h' \<longrightarrow> key (?e j) < key x"
      proof (intro ballI allI impI)
        fix x j assume x: "x \<in> set h'" and j: "j < Suc m" and out: "?e j \<notin> set h'"
        have jm: "j < m" using j out set_h' by (cases "j = m") auto
        have low: "key least < key x"
        proof (cases "x = ?x")
          case True
          then show ?thesis using \<open>fst least < fst ?x\<close> by (simp add: key_def less_prod_def)
        next
          case False
          then show ?thesis using x set_h' least_lt by auto
        qed
        show "key (?e j) < key x"
        proof (cases "?e j = least")
          case True
          then show ?thesis using low by simp
        next
          case False
          then have "?e j \<notin> set h" using out set_h' h by auto
          from dom[OF _ jm this, of least] h have "key (?e j) < key least" by simp
          then show ?thesis using low by simp
        qed
      qed
      ultimately have "topn_inv column n rows (Suc m) h'"
        using h'(3) by (simp add: topn_inv_def)
      moreover have "TopN_loop column n h (int m) (rows ! m # rest) = TopN_loop column n h' (int m + 1) rest"
        using False True col h h'(1) gt by (simp add: x_eq)
      ultimately show ?thesis by blast
    next
      case nlt: False
      have new_low: "key ?x < key least"
      proof -
        have "fst ?x \<le> fst least" using nlt by simp
        moreover have "- int m < - int l" using l by simp
        ultimately show ?thesis using l by (auto simp: key_def less_prod_def)
      qed
      have "\<forall>x \<in> set h. \<forall>j < Suc m. ?e j \<notin> set h \<longrightarrow> key (?e j) < key x"
      proof (intro ballI allI impI)
        fix x j assume x: "x \<in> set h" and j: "j < Suc m" and out: "?e j \<notin> set h"
        show "key (?e j) < key x"
        proof (cases "j = m")
          case True
          then show ?thesis using new_low least_min[OF x] by simp
        next
          case False
          then show ?thesis using dom[OF x _ out] j by simp
        qed
      qed
      moreover have "set h \<subseteq> ?e ` {..<Suc m}" using sub by (auto simp: lessThan_Suc)
      moreover have "length h = min (nat n) (Suc m)" using lenn mn by simp
      ultimately have "topn_inv column n rows (Suc m) h"
        using srt dist by (simp add: topn_inv_def)
      moreover have "TopN_loop column n h (int m) (rows ! m # rest) = TopN_loop column n h (int m + 1) rest"
        using False nlt col h gt by (simp add: x_eq)
      ultimately show ?thesis by blast
    qed
  qed
qed

lemma TopN_loop_inv:
  assumes n: "1 \<le> n" and cmp: "column_comparable column rows"
  shows "rows = pre @ rest \<Longrightarrow> topn_inv column n rows (length pre) h \<Longrightarrow>
         \<exists>h'. TopN_loop column n h (int (length pre)) rest = Inr h'
              \<and> topn_inv column n rows (length rows) h'"
proof (induction rest arbitrary: pre h)
  case Nil
  then show ?case by simp
next
  case (Cons r rest)
  have m: "length pre < length rows" and r: "rows ! length pre = r"
    using Cons.prems(1) by simp_all
  from TopN_step[OF n cmp m Cons.prems(2), of rest] obtain h1 where
    step: "TopN_loop column n h (int (length pre)) (r # rest)
            = TopN_loop column n h1 (int (length pre) + 1) rest"
    and inv1: "topn_inv column n rows (Suc (length pre)) h1"
    unfolding r by blast
  have "\<exists>h'. TopN_loop column n h1 (int (length (pre @ [r]))) rest = Inr h'
              \<and> topn_inv column n rows (length rows) h'"
    by (rule Cons.IH) (use Cons.prems(1) inv1 in simp_all)
  then show ?case
    unfolding step by (simp add: add.commute)
qed

text \<open>
  C5. For \<open>n \<ge> 1\<close> and a group whose rows have the column with values that compare,
  \<^verbatim>\<open>TopN(column, n)\<close> yields \<open>min n (length rows)\<close> rows, so at most \<open>n\<close>: the rows at pairwise
  different positions \<open>js\<close> of the group (in an order of which nothing is claimed), and every
  row yielded is preferred to every row not yielded: its value in the column is larger, or
  equal with the yielded row the earlier of the two.
\<close>

theorem TopN_selects_largest:
  assumes "1 \<le> n" and "column_comparable column rows"
  shows "\<exists>js. TopN_call column n group_key rows = Inr (map ((!) rows) js)
       \<and> distinct js \<and> set js \<subseteq> {..<length rows}
       \<and> length js = min (nat n) (length rows)
       \<and> (\<forall>i \<in> set js. \<forall>j < length rows. j \<notin> set js \<longrightarrow> outranks column rows i j)"
proof -
  let ?e = "entry_at column rows"
  let ?idx = "\<lambda>x :: entry. nat (- fst (snd x))"
  have "topn_inv column n rows (length ([] :: row list)) []"
    by (simp add: topn_inv_def)
  from TopN_loop_inv[OF assms _ this, of rows] obtain h where
    loop: "TopN_loop column n [] 0 rows = Inr h" and inv: "topn_inv column n rows (length rows) h"
    by auto
  from inv have dist: "distinct h" and sub: "set h \<subseteq> ?e ` {..<length rows}"
    and len: "length h = min (nat n) (length rows)"
    and dom: "\<And>x j. x \<in> set h \<Longrightarrow> j < length rows \<Longrightarrow> ?e j \<notin> set h \<Longrightarrow> key (?e j) < key x"
    by (auto simp: topn_inv_def)
  let ?js = "map ?idx h"
  have e_idx: "?e (?idx x) = x" and idx_lt: "?idx x < length rows" if "x \<in> set h" for x
  proof -
    from that sub obtain j where "j < length rows" "x = ?e j" by auto
    then show "?e (?idx x) = x" "?idx x < length rows" by simp_all
  qed
  have rows_eq: "map (\<lambda>(a, b, row). row) h = map ((!) rows) ?js"
  proof -
    have "(case x of (a, b, row) \<Rightarrow> row) = rows ! ?idx x" if "x \<in> set h" for x
      using e_idx[OF that] by (metis entry_at_simps(2) split_beta)
    then show ?thesis by simp
  qed
  have call: "TopN_call column n group_key rows = Inr (map ((!) rows) ?js)"
    by (simp add: TopN_call_def loop rows_eq)
  have inj: "inj_on ?idx (set h)"
    by (rule inj_onI) (metis e_idx)
  have d: "distinct ?js"
    using dist inj by (simp add: distinct_map)
  have s: "set ?js \<subseteq> {..<length rows}"
    using idx_lt by auto
  have l: "length ?js = min (nat n) (length rows)"
    using len by simp
  have o: "\<forall>i \<in> set ?js. \<forall>j < length rows. j \<notin> set ?js \<longrightarrow> outranks column rows i j"
  proof (intro ballI allI impI)
    fix i j assume i: "i \<in> set ?js" and j: "j < length rows" and nj: "j \<notin> set ?js"
    from i obtain x where x: "x \<in> set h" "i = ?idx x" by auto
    then have ei: "?e i \<in> set h" and il: "i < length rows"
      using e_idx idx_lt by auto
    have "?e j \<notin> set h"
    proof
      assume "?e j \<in> set h"
      then have "?idx (?e j) \<in> ?idx ` set h" by (rule imageI)
      then have "?idx (?e j) \<in> set ?js" by (simp only: set_map)
      then show False using nj by simp
    qed
    from dom[OF ei j this] have k: "key (?e j) < key (?e i)" .
    note ci = column_comparable_nth[OF assms(2) il j]
    note cj = column_comparable_nth[OF assms(2) j il]
    have "py_lt (fst (?e j)) (fst (?e i)) = Inr (fst (?e j) < fst (?e i))"
      using cj(2) by (rule py_lt_less)
    moreover have "fst (?e j) < fst (?e i) \<or> (fst (?e i) = fst (?e j) \<and> i < j)"
      using k by (auto simp: key_def less_prod_def)
    ultimately show "outranks column rows i j"
      unfolding outranks_def ci(1) cj(1) by auto
  qed
  show ?thesis
    by (intro exI[of _ ?js] conjI) (rule call d s l o)+
qed

theorem TopN_selects_largest_witness:
  "(1::int) \<le> 2
   \<and> column_comparable ''x''
     [[''x'' \<mapsto> NumV 5, ''id'' \<mapsto> StrV ''a''], [''x'' \<mapsto> NumV 3, ''id'' \<mapsto> StrV ''b''],
      [''x'' \<mapsto> NumV 5, ''id'' \<mapsto> StrV ''c''], [''x'' \<mapsto> NumV 5, ''id'' \<mapsto> StrV ''d'']]
   \<and> TopN_call ''x'' 2 []
     [[''x'' \<mapsto> NumV 5, ''id'' \<mapsto> StrV ''a''], [''x'' \<mapsto> NumV 3, ''id'' \<mapsto> StrV ''b''],
      [''x'' \<mapsto> NumV 5, ''id'' \<mapsto> StrV ''c''], [''x'' \<mapsto> NumV 5, ''id'' \<mapsto> StrV ''d'']]
     = Inr [[''x'' \<mapsto> NumV 5, ''id'' \<mapsto> StrV ''c''], [''x'' \<mapsto> NumV 5, ''id'' \<mapsto> StrV ''a'']]
   \<and> (\<exists>js. TopN_call ''x'' 2 []
          [[''x'' \<mapsto> NumV 5, ''id'' \<mapsto> StrV ''a''], [''x'' \<mapsto> NumV 3, ''id'' \<mapsto> StrV ''b''],
           [''x'' \<mapsto> NumV 5, ''id'' \<mapsto> StrV ''c''], [''x'' \<mapsto> NumV 5, ''id'' \<mapsto> StrV ''d'']]
         = Inr (map ((!) [[''x'' \<mapsto> NumV 5, ''id'' \<mapsto> StrV ''a''], [''x'' \<mapsto> NumV 3, ''id'' \<mapsto> StrV ''b''],
           [''x'' \<mapsto> NumV 5, ''id'' \<mapsto> StrV ''c''], [''x'' \<mapsto> NumV 5, ''id'' \<mapsto> StrV ''d'']]) js)
       \<and> distinct js
       \<and> set js \<subseteq> {..<length [[''x'' \<mapsto> NumV 5, ''id'' \<mapsto> StrV ''a''], [''x'' \<mapsto> NumV 3, ''id'' \<mapsto> StrV ''b''],
           [''x'' \<mapsto> NumV 5, ''id'' \<mapsto> StrV ''c''], [''x'' \<mapsto> NumV 5, ''id'' \<mapsto> StrV ''d'']]}
       \<and> length js = min (nat 2) (length [[''x'' \<mapsto> NumV 5, ''id'' \<mapsto> StrV ''a''],
           [''x'' \<mapsto> NumV 3, ''id'' \<mapsto> StrV ''b''],
           [''x'' \<mapsto> NumV 5, ''id'' \<mapsto> StrV ''c''], [''x'' \<mapsto> NumV 5, ''id'' \<mapsto> StrV ''d'']])
       \<and> (\<forall>i \<in> set js. \<forall>j < length [[''x'' \<mapsto> NumV 5, ''id'' \<mapsto> StrV ''a''],
           [''x'' \<mapsto> NumV 3, ''id'' \<mapsto> StrV ''b''],
           [''x'' \<mapsto> NumV 5, ''id'' \<mapsto> StrV ''c''], [''x'' \<mapsto> NumV 5, ''id'' \<mapsto> StrV ''d'']].
             j \<notin> set js \<longrightarrow>
             outranks ''x'' [[''x'' \<mapsto> NumV 5, ''id'' \<mapsto> StrV ''a''], [''x'' \<mapsto> NumV 3, ''id'' \<mapsto> StrV ''b''],
               [''x'' \<mapsto> NumV 5, ''id'' \<mapsto> StrV ''c''], [''x'' \<mapsto> NumV 5, ''id'' \<mapsto> StrV ''d'']] i j))"
proof -
  let ?rows = "[[''x'' \<mapsto> NumV 5, ''id'' \<mapsto> StrV ''a''], [''x'' \<mapsto> NumV 3, ''id'' \<mapsto> StrV ''b''],
      [''x'' \<mapsto> NumV 5, ''id'' \<mapsto> StrV ''c''], [''x'' \<mapsto> NumV 5, ''id'' \<mapsto> StrV ''d'']]"
  have h1: "(1::int) \<le> 2" by simp
  have h2: "column_comparable ''x'' ?rows"
    by (simp add: column_comparable_def comparable_def)
  have ev: "TopN_call ''x'' 2 [] ?rows
     = Inr [[''x'' \<mapsto> NumV 5, ''id'' \<mapsto> StrV ''c''], [''x'' \<mapsto> NumV 5, ''id'' \<mapsto> StrV ''a'']]"
    by (simp add: TopN_call_def py_gt_def)
  note c = TopN_selects_largest[where n = 2 and column = "''x''" and rows = ?rows
      and group_key = "[]", OF h1 h2]
  show ?thesis
    by (intro conjI) (rule h1 h2 ev c)+
qed

section \<open>Verification: the sort-merge join, outer against inner\<close>

lemma py_lt_total: "py_lt a b = Inr False \<Longrightarrow> py_lt b a = Inr False \<Longrightarrow> a = b"
  by (cases a; cases b) auto

lemma py_lt_list_total:
  "length a = length b \<Longrightarrow> py_lt_list a b = Inr False \<Longrightarrow> py_lt_list b a = Inr False \<Longrightarrow> a = b"
proof (induction a b rule: py_lt_list.induct)
  case (4 x xs y ys)
  show ?case
  proof (cases "x = y")
    case True
    then show ?thesis using 4 by simp
  next
    case False
    then have "py_lt x y = Inr False" "py_lt y x = Inr False"
      using 4 by auto
    then show ?thesis using py_lt_total False by blast
  qed
qed auto

lemma values_at_length: "values_at keys r = Inr vs \<Longrightarrow> length vs = length keys"
proof -
  assume "values_at keys r = Inr vs"
  then have "map (\<lambda>k. case r k of None \<Rightarrow> Inl (KeyError k) | Some v \<Rightarrow> Inr v) keys = map Inr vs"
    unfolding values_at_def by (rule collect_Inr_D)
  then show ?thesis by (metis length_map)
qed

lemma outer_left_only: "joiner_call iter (outer_joiner sa sb) keys ag [] = Inr ag"
  by (simp add: joiner_call_def outer_joiner_def OuterJoiner_call_def prod_tables_def)

lemma inner_left_only: "joiner_call iter (inner_joiner sa sb) keys ag [] = Inr []"
  by (simp add: joiner_call_def inner_joiner_def InnerJoiner_call_def prod_tables_def)

lemma outer_right_only: "joiner_call iter (outer_joiner sa sb) keys [] bg = Inr bg"
  by (simp add: joiner_call_def outer_joiner_def OuterJoiner_call_def prod_tables_def)

lemma inner_right_only: "joiner_call iter (inner_joiner sa sb) keys [] bg = Inr []"
  by (simp add: joiner_call_def inner_joiner_def InnerJoiner_call_def prod_tables_def)

lemma outer_inner_matched:
  assumes "ag \<noteq> []" and "bg \<noteq> []" and "have_columns keys ag"
  shows "\<exists>p. joiner_call iter (outer_joiner sa sb) keys ag bg = Inr p
           \<and> joiner_call iter (inner_joiner sa sb) keys ag bg = Inr p"
proof -
  from collect_concat_prod_ok[of ag keys iter sa sb bg] assms(3)
  obtain p where "collect (concat (map (\<lambda>a. map (\<lambda>b. prod_row iter keys sa sb a b) bg) ag)) = Inr p"
    by (auto simp: have_columns_def)
  then have "prod_tables iter keys sa sb ag bg = Inr p"
    using assms(2) by (simp add: prod_tables_def)
  then show ?thesis
    using assms(1,2)
    by (simp add: joiner_call_def outer_joiner_def inner_joiner_def OuterJoiner_call_def
          InnerJoiner_call_def)
qed

lemma yield_then_Inr [simp]: "yield_then (Inr xs) (Inr ys) = Inr (xs @ ys)"
  by (simp add: yield_then_def)

lemma unmatched_groups_simps [simp]:
  "unmatched_groups [] gb = []"
  "unmatched_groups (p # ga) gb =
     (if fst p \<in> fst ` set gb then unmatched_groups ga gb else snd p @ unmatched_groups ga gb)"
  by (simp_all add: unmatched_groups_def)

lemma unmatched_groups_Nil2 [simp]: "unmatched_groups ga [] = concat (map snd ga)"
  by (induction ga) auto

lemma unmatched_groups_drop:
  "k \<notin> fst ` set ga \<Longrightarrow> unmatched_groups ga ((k, g) # gb) = unmatched_groups ga gb"
  by (induction ga) auto

lemma groups_ok_Cons:
  "groups_ok keys (p # gs) \<Longrightarrow>
     groups_ok keys gs \<and> snd p \<noteq> [] \<and> have_columns keys (snd p) \<and>
     (\<forall>q \<in> set gs. py_lt_list (fst p) (fst q) = Inr True)"
  by (auto simp: groups_ok_def)

lemma keys_comparable_Cons:
  "keys_comparable (p # ga) gb \<Longrightarrow> keys_comparable ga gb"
  "keys_comparable ga (q # gb) \<Longrightarrow> keys_comparable ga gb"
  by (auto simp: keys_comparable_def)

lemma join_groups_left_only:
  "\<exists>out inn. join_groups iter (outer_joiner sa sb) keys ga [] = Inr out
     \<and> join_groups iter (inner_joiner sa sb) keys ga [] = Inr inn
     \<and> mset out = mset inn + mset (concat (map snd ga))"
proof (induction ga)
  case Nil
  then show ?case by simp
next
  case (Cons p ga)
  obtain ak ag where p: "p = (ak, ag)" by (cases p)
  from Cons obtain out inn where
    "join_groups iter (outer_joiner sa sb) keys ga [] = Inr out"
    "join_groups iter (inner_joiner sa sb) keys ga [] = Inr inn"
    "mset out = mset inn + mset (concat (map snd ga))"
    by blast
  then show ?case
    by (simp add: p outer_left_only inner_left_only)
qed

lemma join_groups_right_only:
  "\<exists>out inn. join_groups iter (outer_joiner sa sb) keys [] gb = Inr out
     \<and> join_groups iter (inner_joiner sa sb) keys [] gb = Inr inn
     \<and> mset out = mset inn + mset (concat (map snd gb))"
proof (induction gb)
  case Nil
  then show ?case by simp
next
  case (Cons p gb)
  obtain bk bg where p: "p = (bk, bg)" by (cases p)
  from Cons obtain out inn where
    "join_groups iter (outer_joiner sa sb) keys [] gb = Inr out"
    "join_groups iter (inner_joiner sa sb) keys [] gb = Inr inn"
    "mset out = mset inn + mset (concat (map snd gb))"
    by blast
  then show ?case
    by (simp add: p outer_right_only inner_right_only)
qed

lemma join_groups_outer_inner:
  assumes "groups_ok keys ga" and "groups_ok keys gb" and "keys_comparable ga gb"
  shows "\<exists>out inn. join_groups iter (outer_joiner sa sb) keys ga gb = Inr out
     \<and> join_groups iter (inner_joiner sa sb) keys ga gb = Inr inn
     \<and> mset out = mset inn + mset (unmatched_groups ga gb) + mset (unmatched_groups gb ga)"
  using assms
proof (induction "length ga + length gb" arbitrary: ga gb rule: less_induct)
  case less
  show ?case
  proof (cases ga)
    case Nil
    then show ?thesis using join_groups_right_only[of iter sa sb keys gb] by simp
  next
    case ga: (Cons p ra)
    obtain ak ag where p: "p = (ak, ag)" by (cases p)
    show ?thesis
    proof (cases gb)
      case Nil
      then show ?thesis using join_groups_left_only[of iter sa sb keys ga] by simp
    next
      case gb: (Cons q rb)
      obtain bk bg where q: "q = (bk, bg)" by (cases q)
      from groups_ok_Cons[OF less.prems(1)[unfolded ga]] p
      have oka: "groups_ok keys ra" and ag: "ag \<noteq> []" "have_columns keys ag"
        and lta: "\<forall>x \<in> set ra. py_lt_list ak (fst x) = Inr True"
        by auto
      from groups_ok_Cons[OF less.prems(2)[unfolded gb]] q
      have okb: "groups_ok keys rb" and bg: "bg \<noteq> []" "have_columns keys bg"
        and ltb: "\<forall>x \<in> set rb. py_lt_list bk (fst x) = Inr True"
        by auto
      from less.prems(3) ga gb p q
      have len: "length ak = length bk"
        and def1: "\<not> isl (py_lt_list ak bk)" and def2: "\<not> isl (py_lt_list bk ak)"
        by (auto simp: keys_comparable_def)
      from def1 obtain c where c: "py_lt_list ak bk = Inr c" by (cases "py_lt_list ak bk") auto
      from def2 obtain c' where c': "py_lt_list bk ak = Inr c'" by (cases "py_lt_list bk ak") auto
      have cmp_ra: "keys_comparable ra gb" and cmp_rb: "keys_comparable ga rb"
        and cmp_rr: "keys_comparable ra rb"
        using less.prems(3) keys_comparable_Cons ga gb by blast+
      show ?thesis
      proof (cases c)
        case True
        have ak_not_b: "ak \<notin> fst ` set gb"
        proof
          assume "ak \<in> fst ` set gb"
          then consider "ak = bk" | x where "x \<in> set rb" "fst x = ak"
            using gb q by auto
          then show False
          proof cases
            case 1
            then show ?thesis using c True py_lt_list_irrefl[of ak] by simp
          next
            case 2
            then have "py_lt_list bk ak = Inr True" using ltb by auto
            then show ?thesis using c True py_lt_list_asym[of bk ak] by simp
          qed
        qed
        from less.hyps[of ra gb, OF _ oka less.prems(2) cmp_ra] ga
        obtain out inn where IH:
          "join_groups iter (outer_joiner sa sb) keys ra gb = Inr out"
          "join_groups iter (inner_joiner sa sb) keys ra gb = Inr inn"
          "mset out = mset inn + mset (unmatched_groups ra gb) + mset (unmatched_groups gb ra)"
          by auto
        have "unmatched_groups gb ga = unmatched_groups gb ra"
          unfolding ga p using unmatched_groups_drop[OF ak_not_b] .
        moreover have "unmatched_groups ga gb = ag @ unmatched_groups ra gb"
          using ak_not_b by (simp add: ga p)
        moreover have step: "join_groups iter J keys ga gb
            = yield_then (joiner_call iter J keys ag []) (join_groups iter J keys ra gb)" for J
          unfolding ga gb p q using c True by simp
        ultimately show ?thesis
          using IH by (simp add: step outer_left_only inner_left_only)
      next
        case False
        show ?thesis
        proof (cases c')
          case True
          have bk_not_a: "bk \<notin> fst ` set ga"
          proof
            assume "bk \<in> fst ` set ga"
            then consider "bk = ak" | x where "x \<in> set ra" "fst x = bk"
              using ga p by auto
            then show False
            proof cases
              case 1
              then show ?thesis using c' True py_lt_list_irrefl[of ak] by simp
            next
              case 2
              then have "py_lt_list ak bk = Inr True" using lta by auto
              then show ?thesis using c' True py_lt_list_asym[of ak bk] by simp
            qed
          qed
          from less.hyps[of ga rb, OF _ less.prems(1) okb cmp_rb] gb
          obtain out inn where IH:
            "join_groups iter (outer_joiner sa sb) keys ga rb = Inr out"
            "join_groups iter (inner_joiner sa sb) keys ga rb = Inr inn"
            "mset out = mset inn + mset (unmatched_groups ga rb) + mset (unmatched_groups rb ga)"
            by auto
          have "unmatched_groups ga gb = unmatched_groups ga rb"
            unfolding gb q using unmatched_groups_drop[OF bk_not_a] .
          moreover have "unmatched_groups gb ga = bg @ unmatched_groups rb ga"
            using bk_not_a by (simp add: gb q)
          moreover have step: "join_groups iter J keys ga gb
              = yield_then (joiner_call iter J keys [] bg) (join_groups iter J keys ga rb)" for J
            unfolding ga gb p q using c c' True \<open>\<not> c\<close> by simp
          ultimately show ?thesis
            using IH by (simp add: step outer_right_only inner_right_only)
        next
          case nlt: False
          have eq: "ak = bk"
            using py_lt_list_total[OF len] c c' False nlt by simp
          have ra_not: "bk \<notin> fst ` set ra"
          proof
            assume "bk \<in> fst ` set ra"
            then obtain x where "x \<in> set ra" "fst x = bk" by auto
            then have "py_lt_list ak bk = Inr True" using lta by auto
            then show False using eq py_lt_list_irrefl[of ak] by simp
          qed
          have rb_not: "ak \<notin> fst ` set rb"
          proof
            assume "ak \<in> fst ` set rb"
            then obtain x where "x \<in> set rb" "fst x = ak" by auto
            then have "py_lt_list bk ak = Inr True" using ltb by auto
            then show False using eq py_lt_list_irrefl[of ak] by simp
          qed
          from less.hyps[of ra rb, OF _ oka okb cmp_rr] ga gb
          obtain out inn where IH:
            "join_groups iter (outer_joiner sa sb) keys ra rb = Inr out"
            "join_groups iter (inner_joiner sa sb) keys ra rb = Inr inn"
            "mset out = mset inn + mset (unmatched_groups ra rb) + mset (unmatched_groups rb ra)"
            by auto
          from outer_inner_matched[OF ag(1) bg(1) ag(2), of iter sa sb]
          obtain pr where pr: "joiner_call iter (outer_joiner sa sb) keys ag bg = Inr pr"
            "joiner_call iter (inner_joiner sa sb) keys ag bg = Inr pr"
            by blast
          have "unmatched_groups ga gb = unmatched_groups ra rb"
            unfolding ga gb p q using unmatched_groups_drop[OF ra_not] eq by simp
          moreover have "unmatched_groups gb ga = unmatched_groups rb ra"
            unfolding ga gb p q using unmatched_groups_drop[OF rb_not] eq by simp
          moreover have step: "join_groups iter J keys ga gb
              = yield_then (joiner_call iter J keys ag bg) (join_groups iter J keys ra rb)" for J
            unfolding ga gb p q using c c' False nlt by simp
          ultimately show ?thesis
            using IH pr by (simp add: step)
        qed
      qed
    qed
  qed
qed

lemma keys_total:
  assumes "have_columns keys rows"
  shows "\<exists>ks. collect (map (comparator keys) rows) = Inr ks
            \<and> map (values_at keys) rows = map Inr ks \<and> length ks = length rows"
proof -
  have "\<forall>r \<in> set rows. \<exists>vs. comparator keys r = Inr vs"
    using assms values_at_total by (simp add: comparator_def have_columns_def)
  then obtain ks where ks: "collect (map (comparator keys) rows) = Inr ks"
    using collect_map_total by blast
  then have m: "map (comparator keys) rows = map Inr ks"
    by (rule collect_Inr_D)
  have "comparator keys = values_at keys"
    by (rule ext) (simp add: comparator_def)
  with m have "map (values_at keys) rows = map Inr ks" by simp
  moreover have "length ks = length rows"
    using m by (metis length_map)
  ultimately show ?thesis using ks by blast
qed

lemma groupby_sorted_wrt:
  "sorted_wrt P (map fst kx) \<Longrightarrow> sorted_wrt P (map fst (groupby kx))"
proof (induction kx rule: groupby.induct)
  case 1
  then show ?case by simp
next
  case (2 k x rest)
  let ?d = "dropWhile (\<lambda>p. fst p = k) rest"
  have d_drop: "?d = drop (length (takeWhile (\<lambda>p. fst p = k) rest)) rest"
    by (rule dropWhile_eq_drop)
  from "2.prems" have Pk: "\<forall>p \<in> set rest. P k (fst p)" and sorted_rest: "sorted_wrt P (map fst rest)"
    by auto
  have sorted_d: "sorted_wrt P (map fst ?d)"
    unfolding d_drop using sorted_rest by (simp add: sorted_wrt_drop flip: drop_map)
  have sub: "fst ` set (groupby ?d) \<subseteq> fst ` set rest"
  proof -
    have "fst ` set (groupby ?d) \<subseteq> fst ` set ?d" by (rule groupby_keys_subset)
    moreover have "set ?d \<subseteq> set rest" by (auto dest: set_dropWhileD)
    ultimately show ?thesis by blast
  qed
  have "P k k'" if "k' \<in> set (map fst (groupby ?d))" for k'
  proof -
    from that have "k' \<in> fst ` set (groupby ?d)" by (simp only: set_map)
    with sub have "k' \<in> fst ` set rest" by (rule subsetD)
    then obtain p where "p \<in> set rest" "k' = fst p" by (rule imageE)
    then show ?thesis using Pk by simp
  qed
  then have "\<forall>k' \<in> set (map fst (groupby ?d)). P k k'" by (rule ballI)
  then show ?case
    using "2.IH"[OF sorted_d] by (simp only: groupby.simps list.map fst_conv sorted_wrt.simps simp_thms)
qed

lemma sorted_wrt_distinct_strict:
  "sorted_wrt P xs \<Longrightarrow> distinct xs \<Longrightarrow> sorted_wrt (\<lambda>a b. P a b \<and> a \<noteq> b) xs"
  by (induction xs) auto

lemma groups_of_sorted:
  assumes srt: "sorted_by keys rows" and m: "map (values_at keys) rows = map Inr ks"
    and len: "length ks = length rows"
  shows "groups_ok keys (groupby (zip ks rows))"
proof -
  let ?gs = "groupby (zip ks rows)"
  from srt have has: "have_columns keys rows" and s: "sorted_wrt (rows_le keys) rows"
    by (simp_all add: sorted_by_def have_columns_def)
  have le: "sorted_wrt py_le_list (map fst (zip ks rows))"
    using sorted_keys[OF s m] len by simp
  have "sorted_wrt py_le_list (map fst ?gs)"
    using le by (rule groupby_sorted_wrt)
  moreover have "distinct (map fst ?gs)"
    using le by (rule groupby_sorted_distinct[rotated]) (rule py_le_list_antisym)
  ultimately have "sorted_wrt (\<lambda>a b. py_le_list a b \<and> a \<noteq> b) (map fst ?gs)"
    by (rule sorted_wrt_distinct_strict)
  then have "sorted_wrt (\<lambda>a b. py_lt_list a b = Inr True) (map fst ?gs)"
    by (rule sorted_wrt_mono_rel[rotated]) (auto simp: py_le_list_def)
  then have 1: "sorted_wrt (\<lambda>p q. py_lt_list (fst p) (fst q) = Inr True) ?gs"
    by (simp add: sorted_wrt_map)
  have 2: "snd p \<noteq> [] \<and> have_columns keys (snd p)" if "p \<in> set ?gs" for p
  proof -
    obtain k g where p: "p = (k, g)" by (cases p)
    from groupby_member[of k g "zip ks rows"] that p
    have g: "g \<noteq> []" "\<forall>x \<in> set g. (k, x) \<in> set (zip ks rows)" by auto
    then have "set g \<subseteq> set rows" by (auto dest: set_zip_rightD)
    then have "have_columns keys g"
      using has unfolding have_columns_def by blast
    then show ?thesis using g(1) p by simp
  qed
  show ?thesis
    unfolding groups_ok_def using 1 2 by blast
qed

lemma group_key_row:
  assumes m: "map f rows = map Inr ks" and p: "p \<in> set (groupby (zip ks rows))"
  shows "\<exists>r \<in> set rows. f r = Inr (fst p)"
proof -
  obtain k g where pk: "p = (k, g)" by (cases p)
  from groupby_member[of k g "zip ks rows"] p pk
  have g: "g \<noteq> []" "\<forall>x \<in> set g. (k, x) \<in> set (zip ks rows)" by auto
  then obtain x where x: "x \<in> set g" by (cases g) auto
  with g have kx: "(k, x) \<in> set (zip ks rows)" by simp
  then have "f x = Inr k" using zip_keyed[OF m] by simp
  moreover have "x \<in> set rows" using kx by (rule set_zip_rightD)
  ultimately show ?thesis using pk by auto
qed

lemma groups_comparable:
  assumes cmp: "streams_comparable keys rows_a rows_b"
    and ma: "map (values_at keys) rows_a = map Inr ks_a"
    and mb: "map (values_at keys) rows_b = map Inr ks_b"
  shows "keys_comparable (groupby (zip ks_a rows_a)) (groupby (zip ks_b rows_b))"
  unfolding keys_comparable_def
proof (intro ballI)
  fix p q assume p: "p \<in> set (groupby (zip ks_a rows_a))" and q: "q \<in> set (groupby (zip ks_b rows_b))"
  from group_key_row[OF ma p] obtain a where a: "a \<in> set rows_a" "values_at keys a = Inr (fst p)"
    by blast
  from group_key_row[OF mb q] obtain b where b: "b \<in> set rows_b" "values_at keys b = Inr (fst q)"
    by blast
  have "rows_comparable keys a b"
    using cmp a(1) b(1) by (simp add: streams_comparable_def)
  then have "\<not> isl (py_lt_list (fst p) (fst q)) \<and> \<not> isl (py_lt_list (fst q) (fst p))"
    using a(2) b(2) by (simp add: rows_comparable_def)
  moreover have "length (fst p) = length (fst q)"
    using values_at_length[OF a(2)] values_at_length[OF b(2)] by simp
  ultimately show "length (fst p) = length (fst q) \<and>
        \<not> isl (py_lt_list (fst p) (fst q)) \<and> \<not> isl (py_lt_list (fst q) (fst p))"
    by simp
qed

lemma groupby_filter_concat:
  "concat (map snd (filter (\<lambda>p. Q (fst p)) (groupby kx))) = map snd (filter (\<lambda>p. Q (fst p)) kx)"
proof (induction kx rule: groupby.induct)
  case 1
  then show ?case by simp
next
  case (2 k x rest)
  let ?t = "takeWhile (\<lambda>p. fst p = k) rest"
  let ?d = "dropWhile (\<lambda>p. fst p = k) rest"
  have rest: "rest = ?t @ ?d" by simp
  have t: "filter (\<lambda>p. Q (fst p)) ?t = (if Q k then ?t else [])"
    by (auto simp: filter_empty_conv dest: set_takeWhileD intro: filter_True)
  have "filter (\<lambda>p. Q (fst p)) rest = (if Q k then ?t else []) @ filter (\<lambda>p. Q (fst p)) ?d"
    by (subst rest) (simp only: filter_append t)
  then show ?case
    using 2 by (simp del: takeWhile_dropWhile_id)
qed

lemma zip_filter:
  "map f rows = map Inr ks \<Longrightarrow>
   map snd (filter (\<lambda>p. fst p \<notin> K) (zip ks rows)) = filter (\<lambda>a. f a \<notin> Inr ` K) rows"
proof (induction rows arbitrary: ks)
  case Nil
  then show ?case by simp
next
  case (Cons r rows)
  then obtain k ks' where ks: "ks = k # ks'" "f r = Inr k" "map f rows = map Inr ks'"
    by (cases ks) auto
  then show ?case using Cons.IH[OF ks(3)] by auto
qed

lemma unmatched_rows:
  assumes ma: "map f rows_a = map Inr ks_a" and la: "length ks_a = length rows_a"
    and mb: "map f rows_b = map Inr ks_b" and lb: "length ks_b = length rows_b"
  shows "unmatched_groups (groupby (zip ks_a rows_a)) (groupby (zip ks_b rows_b))
         = filter (\<lambda>a. f a \<notin> f ` set rows_b) rows_a"
proof -
  have K: "fst ` set (groupby (zip ks_b rows_b)) = set ks_b"
    using groups_facts(4)[OF mb lb] .
  have "set (map f rows_b) = set (map Inr ks_b)"
    by (simp only: mb)
  then have I: "Inr ` set ks_b = f ` set rows_b"
    by simp
  have "unmatched_groups (groupby (zip ks_a rows_a)) (groupby (zip ks_b rows_b))
        = map snd (filter (\<lambda>p. fst p \<notin> set ks_b) (zip ks_a rows_a))"
    unfolding unmatched_groups_def K by (rule groupby_filter_concat)
  also have "\<dots> = filter (\<lambda>a. f a \<notin> Inr ` set ks_b) rows_a"
    by (rule zip_filter[OF ma])
  finally show ?thesis
    unfolding I .
qed

text \<open>
  C3. For two streams sorted ascending by the join keys, whose key tuples compare with each
  other, the rows that \<^verbatim>\<open>Join\<close> produces with \<^verbatim>\<open>OuterJoiner\<close> are, as a multiset, the rows it
  produces with \<^verbatim>\<open>InnerJoiner\<close> (same suffixes) together with the rows of the left stream
  whose key tuple no row of the right stream has, and the rows of the right stream whose key
  tuple no row of the left stream has; these rows are the input rows themselves, unchanged.
\<close>

theorem Join_outer_inner:
  assumes "sorted_by keys rows_a" and "sorted_by keys rows_b"
    and "streams_comparable keys rows_a rows_b"
  shows "\<exists>out inn.
       Join_call iter (outer_joiner sa sb) keys rows_a rows_b = Inr out
     \<and> Join_call iter (inner_joiner sa sb) keys rows_a rows_b = Inr inn
     \<and> mset out = mset inn
         + mset (filter (\<lambda>a. values_at keys a \<notin> values_at keys ` set rows_b) rows_a)
         + mset (filter (\<lambda>b. values_at keys b \<notin> values_at keys ` set rows_a) rows_b)"
proof -
  from assms(1,2) have ha: "have_columns keys rows_a" and hb: "have_columns keys rows_b"
    by (simp_all add: sorted_by_def have_columns_def)
  from keys_total[OF ha] obtain ks_a where
    ca: "collect (map (comparator keys) rows_a) = Inr ks_a"
    and ma: "map (values_at keys) rows_a = map Inr ks_a" and la: "length ks_a = length rows_a"
    by blast
  from keys_total[OF hb] obtain ks_b where
    cb: "collect (map (comparator keys) rows_b) = Inr ks_b"
    and mb: "map (values_at keys) rows_b = map Inr ks_b" and lb: "length ks_b = length rows_b"
    by blast
  let ?ga = "groupby (zip ks_a rows_a)"
  let ?gb = "groupby (zip ks_b rows_b)"
  have call: "Join_call iter j keys rows_a rows_b = join_groups iter j keys ?ga ?gb" for j
    by (simp add: Join_call_def ca cb)
  from join_groups_outer_inner[OF groups_of_sorted[OF assms(1) ma la]
      groups_of_sorted[OF assms(2) mb lb] groups_comparable[OF assms(3) ma mb], of iter sa sb]
  obtain out inn where
    o: "join_groups iter (outer_joiner sa sb) keys ?ga ?gb = Inr out" and
    i: "join_groups iter (inner_joiner sa sb) keys ?ga ?gb = Inr inn" and
    ms: "mset out = mset inn + mset (unmatched_groups ?ga ?gb) + mset (unmatched_groups ?gb ?ga)"
    by blast
  have ms': "mset out = mset inn
         + mset (filter (\<lambda>a. values_at keys a \<notin> values_at keys ` set rows_b) rows_a)
         + mset (filter (\<lambda>b. values_at keys b \<notin> values_at keys ` set rows_a) rows_b)"
    using ms unfolding unmatched_rows[OF ma la mb lb] unmatched_rows[OF mb lb ma la] .
  show ?thesis
    unfolding call
    by (intro exI[of _ out] exI[of _ inn] conjI) (rule o i ms')+
qed

theorem Join_outer_inner_witness:
  "sorted_by [''k'']
     [[''k'' \<mapsto> NumV 1, ''v'' \<mapsto> StrV ''a''], [''k'' \<mapsto> NumV 2, ''v'' \<mapsto> StrV ''b'']]
   \<and> sorted_by [''k'']
     [[''k'' \<mapsto> NumV 1, ''w'' \<mapsto> NumV 10], [''k'' \<mapsto> NumV 1, ''w'' \<mapsto> NumV 20],
      [''k'' \<mapsto> NumV 3, ''w'' \<mapsto> NumV 9]]
   \<and> streams_comparable [''k'']
     [[''k'' \<mapsto> NumV 1, ''v'' \<mapsto> StrV ''a''], [''k'' \<mapsto> NumV 2, ''v'' \<mapsto> StrV ''b'']]
     [[''k'' \<mapsto> NumV 1, ''w'' \<mapsto> NumV 10], [''k'' \<mapsto> NumV 1, ''w'' \<mapsto> NumV 20],
      [''k'' \<mapsto> NumV 3, ''w'' \<mapsto> NumV 9]]
   \<and> Join_call sorted_list_of_set (outer_joiner ''_1'' ''_2'') [''k'']
     [[''k'' \<mapsto> NumV 1, ''v'' \<mapsto> StrV ''a''], [''k'' \<mapsto> NumV 2, ''v'' \<mapsto> StrV ''b'']]
     [[''k'' \<mapsto> NumV 1, ''w'' \<mapsto> NumV 10], [''k'' \<mapsto> NumV 1, ''w'' \<mapsto> NumV 20],
      [''k'' \<mapsto> NumV 3, ''w'' \<mapsto> NumV 9]]
     = Inr [[''k'' \<mapsto> NumV 1, ''v'' \<mapsto> StrV ''a'', ''w'' \<mapsto> NumV 10],
            [''k'' \<mapsto> NumV 1, ''v'' \<mapsto> StrV ''a'', ''w'' \<mapsto> NumV 20],
            [''k'' \<mapsto> NumV 2, ''v'' \<mapsto> StrV ''b''],
            [''k'' \<mapsto> NumV 3, ''w'' \<mapsto> NumV 9]]
   \<and> Join_call sorted_list_of_set (inner_joiner ''_1'' ''_2'') [''k'']
     [[''k'' \<mapsto> NumV 1, ''v'' \<mapsto> StrV ''a''], [''k'' \<mapsto> NumV 2, ''v'' \<mapsto> StrV ''b'']]
     [[''k'' \<mapsto> NumV 1, ''w'' \<mapsto> NumV 10], [''k'' \<mapsto> NumV 1, ''w'' \<mapsto> NumV 20],
      [''k'' \<mapsto> NumV 3, ''w'' \<mapsto> NumV 9]]
     = Inr [[''k'' \<mapsto> NumV 1, ''v'' \<mapsto> StrV ''a'', ''w'' \<mapsto> NumV 10],
            [''k'' \<mapsto> NumV 1, ''v'' \<mapsto> StrV ''a'', ''w'' \<mapsto> NumV 20]]
   \<and> (\<exists>out inn.
       Join_call sorted_list_of_set (outer_joiner ''_1'' ''_2'') [''k'']
         [[''k'' \<mapsto> NumV 1, ''v'' \<mapsto> StrV ''a''], [''k'' \<mapsto> NumV 2, ''v'' \<mapsto> StrV ''b'']]
         [[''k'' \<mapsto> NumV 1, ''w'' \<mapsto> NumV 10], [''k'' \<mapsto> NumV 1, ''w'' \<mapsto> NumV 20],
          [''k'' \<mapsto> NumV 3, ''w'' \<mapsto> NumV 9]] = Inr out
     \<and> Join_call sorted_list_of_set (inner_joiner ''_1'' ''_2'') [''k'']
         [[''k'' \<mapsto> NumV 1, ''v'' \<mapsto> StrV ''a''], [''k'' \<mapsto> NumV 2, ''v'' \<mapsto> StrV ''b'']]
         [[''k'' \<mapsto> NumV 1, ''w'' \<mapsto> NumV 10], [''k'' \<mapsto> NumV 1, ''w'' \<mapsto> NumV 20],
          [''k'' \<mapsto> NumV 3, ''w'' \<mapsto> NumV 9]] = Inr inn
     \<and> mset out = mset inn
         + mset (filter (\<lambda>a. values_at [''k''] a \<notin> values_at [''k''] `
                   set [[''k'' \<mapsto> NumV 1, ''w'' \<mapsto> NumV 10], [''k'' \<mapsto> NumV 1, ''w'' \<mapsto> NumV 20],
                        [''k'' \<mapsto> NumV 3, ''w'' \<mapsto> NumV 9]])
                   [[''k'' \<mapsto> NumV 1, ''v'' \<mapsto> StrV ''a''], [''k'' \<mapsto> NumV 2, ''v'' \<mapsto> StrV ''b'']])
         + mset (filter (\<lambda>b. values_at [''k''] b \<notin> values_at [''k''] `
                   set [[''k'' \<mapsto> NumV 1, ''v'' \<mapsto> StrV ''a''], [''k'' \<mapsto> NumV 2, ''v'' \<mapsto> StrV ''b'']])
                   [[''k'' \<mapsto> NumV 1, ''w'' \<mapsto> NumV 10], [''k'' \<mapsto> NumV 1, ''w'' \<mapsto> NumV 20],
                    [''k'' \<mapsto> NumV 3, ''w'' \<mapsto> NumV 9]]))"
proof -
  let ?a = "[[''k'' \<mapsto> NumV 1, ''v'' \<mapsto> StrV ''a''], [''k'' \<mapsto> NumV 2, ''v'' \<mapsto> StrV ''b'']]"
  let ?b = "[[''k'' \<mapsto> NumV 1, ''w'' \<mapsto> NumV 10], [''k'' \<mapsto> NumV 1, ''w'' \<mapsto> NumV 20],
      [''k'' \<mapsto> NumV 3, ''w'' \<mapsto> NumV 9]]"
  have h1: "sorted_by [''k''] ?a"
    by (simp add: sorted_by_def rows_le_def values_at_def py_le_list_def)
  have h2: "sorted_by [''k''] ?b"
    by (simp add: sorted_by_def rows_le_def values_at_def py_le_list_def)
  have h3: "streams_comparable [''k''] ?a ?b"
    by (simp add: streams_comparable_def rows_comparable_def values_at_def)
  have p1: "prod_row sorted_list_of_set [''k''] ''_1'' ''_2''
              [''k'' \<mapsto> NumV 1, ''v'' \<mapsto> StrV ''a''] [''k'' \<mapsto> NumV 1, ''w'' \<mapsto> NumV 10]
            = Inr [''k'' \<mapsto> NumV 1, ''v'' \<mapsto> StrV ''a'', ''w'' \<mapsto> NumV 10]"
    apply (simp add: prod_row_def Let_def)
    apply (rule ext)
    apply (simp add: map_add_def restrict_map_def)
    done
  have p2: "prod_row sorted_list_of_set [''k''] ''_1'' ''_2''
              [''k'' \<mapsto> NumV 1, ''v'' \<mapsto> StrV ''a''] [''k'' \<mapsto> NumV 1, ''w'' \<mapsto> NumV 20]
            = Inr [''k'' \<mapsto> NumV 1, ''v'' \<mapsto> StrV ''a'', ''w'' \<mapsto> NumV 20]"
    apply (simp add: prod_row_def Let_def)
    apply (rule ext)
    apply (simp add: map_add_def restrict_map_def)
    done
  have e1: "Join_call sorted_list_of_set (outer_joiner ''_1'' ''_2'') [''k''] ?a ?b
     = Inr [[''k'' \<mapsto> NumV 1, ''v'' \<mapsto> StrV ''a'', ''w'' \<mapsto> NumV 10],
            [''k'' \<mapsto> NumV 1, ''v'' \<mapsto> StrV ''a'', ''w'' \<mapsto> NumV 20],
            [''k'' \<mapsto> NumV 2, ''v'' \<mapsto> StrV ''b''],
            [''k'' \<mapsto> NumV 3, ''w'' \<mapsto> NumV 9]]"
    by (simp add: Join_call_def comparator_def values_at_def joiner_call_def outer_joiner_def
          OuterJoiner_call_def prod_tables_def p1 p2 yield_then_def)
  have e2: "Join_call sorted_list_of_set (inner_joiner ''_1'' ''_2'') [''k''] ?a ?b
     = Inr [[''k'' \<mapsto> NumV 1, ''v'' \<mapsto> StrV ''a'', ''w'' \<mapsto> NumV 10],
            [''k'' \<mapsto> NumV 1, ''v'' \<mapsto> StrV ''a'', ''w'' \<mapsto> NumV 20]]"
    by (simp add: Join_call_def comparator_def values_at_def joiner_call_def inner_joiner_def
          InnerJoiner_call_def prod_tables_def p1 p2 yield_then_def)
  note c = Join_outer_inner[where keys = "[''k'']" and rows_a = ?a and rows_b = ?b
      and iter = sorted_list_of_set and sa = "''_1''" and sb = "''_2''", OF h1 h2 h3]
  show ?thesis
    by (intro conjI) (rule h1 h2 h3 e1 e2 c)+
qed

section \<open>Verification: Split\<close>

lemma Split_loop_eq:
  "Split_loop column row tx prev ms =
     (map (\<lambda>(p, s). row(column \<mapsto> StrV (slice tx p s))) (zip (prev # map snd ms) (map fst ms)),
      last (prev # map snd ms))"
  by (induction ms arbitrary: prev) (auto simp: Let_def)

lemma slice_append_drop:
  "p \<le> s \<Longrightarrow> s \<le> length tx \<Longrightarrow> slice tx p s @ drop s tx = drop p tx"
  unfolding slice_def
  by (metis append_take_drop_id drop_append drop_take le_add_diff_inverse length_take min.absorb2 take_drop diff_is_0_eq' drop_0 take_eq_Nil )

lemma spans_ok_last_le:
  "spans_ok n prev ms \<Longrightarrow> prev \<le> n \<Longrightarrow> last (prev # map snd ms) \<le> n"
  by (induction ms arbitrary: prev) auto

lemma rebuild_from:
  "spans_ok (length tx) prev ms \<Longrightarrow> prev \<le> length tx \<Longrightarrow>
   concat (map (\<lambda>(t, (s, e)). t @ slice tx s e)
             (zip (map (\<lambda>(p, s). slice tx p s) (zip (prev # map snd ms) (map fst ms))) ms))
     @ drop (last (prev # map snd ms)) tx = drop prev tx"
proof (induction ms arbitrary: prev)
  case Nil
  then show ?case by simp
next
  case (Cons m ms)
  obtain s e where m: "m = (s, e)" by (cases m)
  from Cons.prems m have le: "prev \<le> s" "s \<le> e" "e \<le> length tx" and ok: "spans_ok (length tx) e ms"
    by auto
  have "slice tx prev s @ slice tx s e @ drop e tx = drop prev tx"
    using le slice_append_drop[of s e tx] slice_append_drop[of prev s tx] by simp
  then show ?case
    using Cons.IH[OF ok le(3)] m by simp
qed

lemma default_separator_a_b: "default_separator ''a b'' = [(1, 2)]"
  by (simp add: default_separator_def char_class_def is_separator_char_def upt_rec_numeral)

lemma default_separator_empty: "default_separator '''' = []"
  by (simp add: default_separator_def char_class_def)

text \<open>
  C7 (as amended). For a row whose value at the column is a string, and a separator whose
  matches come in order inside the text, \<^verbatim>\<open>Split\<close> yields one row per token, each the input
  row with the column replaced by the token: one token before every match, and the tail
  after the last match when it is not empty (when the matches consume the text to its end,
  no row for the remainder). Tokens, matches and tail put together give the text back. When
  the separator has no match in the text, \<^verbatim>\<open>Split\<close> yields exactly one row, the input row,
  if the text is not empty, and no row if the text is empty. The argument row is left as it
  was.
\<close>

theorem Split_rows:
  assumes "row column = Some (StrV tx)" and "spans_ok (length tx) 0 (separator tx)"
  shows "\<exists>yielded. Split_call column separator row = Inr (yielded, row)
     \<and> yielded = map (\<lambda>t. row(column \<mapsto> StrV t))
                   (spec_tokens tx (separator tx)
                    @ (if spec_tail tx (separator tx) = [] then [] else [spec_tail tx (separator tx)]))
     \<and> length (spec_tokens tx (separator tx)) = length (separator tx)
     \<and> concat (map (\<lambda>(t, (s, e)). t @ slice tx s e)
                  (zip (spec_tokens tx (separator tx)) (separator tx)))
           @ spec_tail tx (separator tx) = tx
     \<and> (separator tx = [] \<longrightarrow> yielded = (if tx = [] then [] else [row]))"
proof -
  let ?ms = "separator tx"
  let ?prev = "last (0 # map snd ?ms)"
  have le: "?prev \<le> length tx"
    using spans_ok_last_le[OF assms(2)] by simp
  have tail: "(length tx \<noteq> ?prev) = (spec_tail tx ?ms \<noteq> [])"
    using le by (auto simp: spec_tail_def)
  have call: "Split_call column separator row =
      Inr (map (\<lambda>t. row(column \<mapsto> StrV t))
             (spec_tokens tx ?ms @ (if spec_tail tx ?ms = [] then [] else [spec_tail tx ?ms])), row)"
    using assms(1) tail
    by (simp add: Split_call_def Split_loop_eq spec_tokens_def spec_tail_def split_def comp_def)
  have len: "length (spec_tokens tx ?ms) = length ?ms"
    by (simp add: spec_tokens_def)
  have rt: "concat (map (\<lambda>(t, (s, e)). t @ slice tx s e) (zip (spec_tokens tx ?ms) ?ms))
           @ spec_tail tx ?ms = tx"
    using rebuild_from[OF assms(2)] by (simp add: spec_tokens_def spec_tail_def)
  have row_eq: "row(column \<mapsto> StrV tx) = row"
    using assms(1) by (simp add: map_upd_triv)
  have nomatch: "?ms = [] \<longrightarrow>
      map (\<lambda>t. row(column \<mapsto> StrV t))
             (spec_tokens tx ?ms @ (if spec_tail tx ?ms = [] then [] else [spec_tail tx ?ms]))
      = (if tx = [] then [] else [row])"
    using row_eq by (simp add: spec_tokens_def spec_tail_def)
  show ?thesis
    using call len rt nomatch by blast
qed

theorem Split_rows_witness:
  "[''text'' \<mapsto> StrV ''a b''] ''text'' = Some (StrV ''a b'')
   \<and> spans_ok (length ''a b'') 0 (default_separator ''a b'')
   \<and> Split_call ''text'' default_separator [''text'' \<mapsto> StrV ''a b'']
       = Inr ([[''text'' \<mapsto> StrV ''a''], [''text'' \<mapsto> StrV ''b'']], [''text'' \<mapsto> StrV ''a b''])"
proof -
  let ?row = "[''text'' \<mapsto> StrV ''a b'']"
  have h1: "?row ''text'' = Some (StrV ''a b'')" by simp
  have h2: "spans_ok (length ''a b'') 0 (default_separator ''a b'')"
    by (simp add: default_separator_a_b)
  from Split_rows[where row = ?row and column = "''text''" and tx = "''a b''"
      and separator = default_separator, OF h1 h2]
  obtain yielded where
    call: "Split_call ''text'' default_separator ?row = Inr (yielded, ?row)" and
    y: "yielded = map (\<lambda>t. ?row(''text'' \<mapsto> StrV t))
                   (spec_tokens ''a b'' (default_separator ''a b'')
                    @ (if spec_tail ''a b'' (default_separator ''a b'') = [] then []
                       else [spec_tail ''a b'' (default_separator ''a b'')]))"
    by blast
  have "yielded = [[''text'' \<mapsto> StrV ''a''], [''text'' \<mapsto> StrV ''b'']]"
    unfolding y by (simp add: default_separator_a_b spec_tokens_def spec_tail_def slice_def)
  with call have c: "Split_call ''text'' default_separator ?row
       = Inr ([[''text'' \<mapsto> StrV ''a''], [''text'' \<mapsto> StrV ''b'']], ?row)"
    by simp
  show ?thesis
    by (intro conjI) (rule h1 h2 c)+
qed

text \<open>
  The claim as it was stated promises exactly one row whenever the separator has no match.
  On the row \<^verbatim>\<open>{text: ""}\<close> the default separator has no match, \<^verbatim>\<open>len(text)\<close> equals
  \<^verbatim>\<open>prev = 0\<close>, and \<^verbatim>\<open>Split\<close> yields no row.
\<close>

theorem Split_empty_text_counterexample:
  "default_separator '''' = []
   \<and> Split_call ''text'' default_separator [''text'' \<mapsto> StrV '''']
       = Inr ([], [''text'' \<mapsto> StrV ''''])"
  by (simp add: default_separator_empty Split_call_def)

text \<open>
  The empty text gives no row only when the separator has no match in it. A separator that
  matches the empty string, such as \<^verbatim>\<open>x*\<close>, has the match \<^verbatim>\<open>(0, 0)\<close> in the empty text, and
  \<^verbatim>\<open>Split\<close> yields the one token before it.
\<close>

lemma Split_empty_text_with_match:
  "Split_call ''text'' (\<lambda>tx. [(0, 0)]) [''text'' \<mapsto> StrV '''']
     = Inr ([[''text'' \<mapsto> StrV '''']], [''text'' \<mapsto> StrV ''''])"
  by (simp add: Split_call_def slice_def)

section \<open>Verification: mappers and the row they are given\<close>

text \<open>
  The mappers that copy the row before they assign, or build a new row, leave their
  argument as it was.
\<close>

lemma copying_mappers_keep_argument:
  "DummyMapper_call row = Inr (ys, row') \<Longrightarrow> row' = row"
  "Split_call column separator row = Inr (ys, row') \<Longrightarrow> row' = row"
  "Filter_call condition row = Inr (ys, row') \<Longrightarrow> row' = row"
  "Project_call columns row = Inr (ys, row') \<Longrightarrow> row' = row"
  "Remove_call columns row = Inr (ys, row') \<Longrightarrow> row' = row"
  "Apply_call columns result_column func row = Inr (ys, row') \<Longrightarrow> row' = row"
  by (auto simp: DummyMapper_call_def Split_call_def Filter_call_def Project_call_def
        Remove_call_def Apply_call_def Let_def
      split: option.splits val.splits sum.splits prod.splits)

text \<open>
  \<^verbatim>\<open>FilterPunctuation\<close> and \<^verbatim>\<open>LowerCase\<close> assign to their argument: after the call it holds
  the new text.
\<close>

lemma FilterPunctuation_argument:
  "row column = Some (StrV tx) \<Longrightarrow>
   FilterPunctuation_call column row =
     Inr ([row(column \<mapsto> StrV (filter (\<lambda>c. \<not> is_punctuation c) tx))],
          row(column \<mapsto> StrV (filter (\<lambda>c. \<not> is_punctuation c) tx)))"
  by (simp add: FilterPunctuation_call_def Let_def)

lemma LowerCase_argument:
  "row column = Some (StrV tx) \<Longrightarrow>
   LowerCase_call column row =
     Inr ([row(column \<mapsto> StrV (map lower_char tx))], row(column \<mapsto> StrV (map lower_char tx)))"
  by (simp add: LowerCase_call_def Let_def)

text \<open>
  C8 (the code at the failing inputs). \<^verbatim>\<open>FilterPunctuation('text')\<close> called with the row
  \<^verbatim>\<open>{text: "Hello, world!"}\<close> leaves \<^verbatim>\<open>{text: "Hello world"}\<close> in the row object it was given,
  and \<^verbatim>\<open>LowerCase('text')\<close> called with \<^verbatim>\<open>{text: "Hello"}\<close> leaves \<^verbatim>\<open>{text: "hello"}\<close>: the
  argument is not left unchanged.
\<close>

theorem FilterPunctuation_LowerCase_change_argument:
  "FilterPunctuation_call ''text'' [''text'' \<mapsto> StrV ''Hello, world!'']
     = Inr ([[''text'' \<mapsto> StrV ''Hello world'']], [''text'' \<mapsto> StrV ''Hello world''])
   \<and> [''text'' \<mapsto> StrV ''Hello world''] \<noteq> [''text'' \<mapsto> StrV ''Hello, world!'']
   \<and> LowerCase_call ''text'' [''text'' \<mapsto> StrV ''Hello'']
     = Inr ([[''text'' \<mapsto> StrV ''hello'']], [''text'' \<mapsto> StrV ''hello''])
   \<and> [''text'' \<mapsto> StrV ''hello''] \<noteq> [''text'' \<mapsto> StrV ''Hello'']"
proof -
  have 1: "FilterPunctuation_call ''text'' [''text'' \<mapsto> StrV ''Hello, world!'']
     = Inr ([[''text'' \<mapsto> StrV ''Hello world'']], [''text'' \<mapsto> StrV ''Hello world''])"
    by (simp add: FilterPunctuation_call_def is_punctuation_def Let_def)
  have 2: "[''text'' \<mapsto> StrV ''Hello world''] \<noteq> [''text'' \<mapsto> StrV ''Hello, world!'']"
  proof
    assume eq: "[''text'' \<mapsto> StrV ''Hello world''] = [''text'' \<mapsto> StrV ''Hello, world!'']"
    from eq[THEN fun_cong, of "''text''"] show False by simp
  qed
  have 3: "LowerCase_call ''text'' [''text'' \<mapsto> StrV ''Hello'']
     = Inr ([[''text'' \<mapsto> StrV ''hello'']], [''text'' \<mapsto> StrV ''hello''])"
    by (simp add: LowerCase_call_def lower_char_def Let_def)
  have 4: "[''text'' \<mapsto> StrV ''hello''] \<noteq> [''text'' \<mapsto> StrV ''Hello'']"
  proof
    assume eq: "[''text'' \<mapsto> StrV ''hello''] = [''text'' \<mapsto> StrV ''Hello'']"
    from eq[THEN fun_cong, of "''text''"] show False by simp
  qed
  show ?thesis
    by (intro conjI) (rule 1 2 3 4)+
qed

section \<open>Verification: failures of a run\<close>

lemma feed_Inl [simp]: "feed (Inl e) f = Inl e"
  by (simp add: feed_def)

lemma run_reads_first:
  "reads_first g name \<Longrightarrow> kwargs name = None \<Longrightarrow> run w kwargs g = Inl (KeyError name)"
  by (induction g name rule: reads_first.induct) (simp_all add: ReadIterFactory_call_def)

lemma run_join_no_side: "run w kwargs (Graph (Some (Join joiner keys)) prv None) = Inl AssertionError"
  by (cases prv) simp_all

text \<open>
  C9. Building a graph never fails (the builders are total functions). When the keyword
  arguments of \<^verbatim>\<open>run\<close> lack the name that \<^verbatim>\<open>graph_from_iter(name)\<close> reads, the stream of the
  source node fails with \<^verbatim>\<open>KeyError(name)\<close> before it yields a row, and so does the stream
  of every graph that reads this source first (built from it by \<^verbatim>\<open>map\<close>, \<^verbatim>\<open>reduce\<close>, \<^verbatim>\<open>sort\<close>,
  and \<^verbatim>\<open>join\<close> on the left). The stream of a \<^verbatim>\<open>Join\<close> node without its other-side graph fails
  with \<^verbatim>\<open>AssertionError\<close>.
\<close>

theorem run_missing_input:
  assumes "kwargs name = None" and "reads_first g name"
  shows "run w kwargs (graph_from_iter name) = Inl (KeyError name)
       \<and> run w kwargs g = Inl (KeyError name)
       \<and> run w kwargs (Graph (Some (Join joiner keys)) prv None) = Inl AssertionError
       \<and> run w kwargs (graph_join self joiner None keys) = Inl AssertionError"
  using assms
  by (simp add: run_reads_first run_join_no_side graph_from_iter_def graph_join_def
        ReadIterFactory_call_def)

theorem run_missing_input_witness:
  "([''texts'' \<mapsto> []] :: string \<rightharpoonup> row list) ''docs'' = None
   \<and> reads_first (graph_reduce (graph_map (graph_from_iter ''docs'') DummyMapper_call)
                     (Count_call ''n'') [''k'']) ''docs''
   \<and> run \<lparr>set_order = sorted_list_of_set, external_sort = (\<lambda>keys. Inr), files = Map.empty\<rparr>
        [''texts'' \<mapsto> []] (graph_from_iter ''docs'') = Inl (KeyError ''docs'')
   \<and> run \<lparr>set_order = sorted_list_of_set, external_sort = (\<lambda>keys. Inr), files = Map.empty\<rparr>
        [''texts'' \<mapsto> []]
        (graph_reduce (graph_map (graph_from_iter ''docs'') DummyMapper_call) (Count_call ''n'') [''k''])
       = Inl (KeyError ''docs'')
   \<and> run \<lparr>set_order = sorted_list_of_set, external_sort = (\<lambda>keys. Inr), files = Map.empty\<rparr>
        [''texts'' \<mapsto> []]
        (graph_join (graph_from_iter ''texts'')
           \<lparr>strategy = InnerJoiner, a_suffix = ''_1'', b_suffix = ''_2''\<rparr> None [''k''])
       = Inl AssertionError"
proof -
  let ?kw = "[''texts'' \<mapsto> ([] :: row list)]"
  let ?w = "\<lparr>set_order = sorted_list_of_set, external_sort = (\<lambda>keys. Inr), files = Map.empty\<rparr>"
  let ?g = "graph_reduce (graph_map (graph_from_iter ''docs'') DummyMapper_call) (Count_call ''n'') [''k'']"
  have h1: "?kw ''docs'' = None" by simp
  have h2: "reads_first ?g ''docs''"
    by (simp add: graph_reduce_def graph_map_def graph_from_iter_def)
  note T = run_missing_input[where kwargs = ?kw and name = "''docs''" and g = ?g and w = ?w
      and joiner = "\<lparr>strategy = InnerJoiner, a_suffix = ''_1'', b_suffix = ''_2''\<rparr>"
      and keys = "[''k'']" and self = "graph_from_iter ''texts''" and prv = None, OF h1 h2]
  have c1: "run ?w ?kw (graph_from_iter ''docs'') = Inl (KeyError ''docs'')"
    using T by (elim conjE)
  have c2: "run ?w ?kw ?g = Inl (KeyError ''docs'')"
    using T by (elim conjE)
  have c3: "run ?w ?kw (graph_join (graph_from_iter ''texts'')
           \<lparr>strategy = InnerJoiner, a_suffix = ''_1'', b_suffix = ''_2''\<rparr> None [''k''])
       = Inl AssertionError"
    using T by (elim conjE)
  show ?thesis
    by (intro conjI) (rule h1 h2 c1 c2 c3)+
qed

end
